theory Spec2Isabelle
  imports Main "HOL-Library.Sublist" "HOL-Library.Multiset"
begin

section \<open>JavaScript values and syntax trees\<close>

text \<open>
  The patcher (\<^verbatim>\<open>scripts/patch-slash-commands.js\<close>) works on the tree that the acorn
  parser returns: plain JavaScript objects with a string \<^verbatim>\<open>type\<close>, integer \<^verbatim>\<open>start\<close>
  and \<^verbatim>\<open>end\<close> offsets and kind-specific fields. The walker is written over arbitrary
  objects, so the model keeps them untyped: an object is the list of its own enumerable
  properties in \<^verbatim>\<open>Object.keys\<close> order (keys are pairwise distinct in JavaScript; see
  \<open>distinct_keys\<close> below), an array is a list. Source text is a \<open>string\<close>, one \<open>char\<close> per
  code unit, so offsets count characters as \<^verbatim>\<open>String.prototype.slice\<close> does.
\<close>

datatype jsval =
    JUndef
  | JNull
  | JBool bool
  | JNum int
  | JStr string
  | JArr "jsval list"
  | JObj "(string \<times> jsval) list"

text \<open>JavaScript truthiness, as used by \<^verbatim>\<open>!x\<close> and \<^verbatim>\<open>x && ...\<close>.\<close>

fun truthy :: "jsval \<Rightarrow> bool" where
  "truthy JUndef = False"
| "truthy JNull = False"
| "truthy (JBool b) = b"
| "truthy (JNum n) = (n \<noteq> 0)"
| "truthy (JStr s) = (s \<noteq> [])"
| "truthy (JArr xs) = True"
| "truthy (JObj kvs) = True"

text \<open>
  Property read \<^verbatim>\<open>v.k\<close>. Every read in the script is either on a walked node (an
  object) or guarded by a truthiness test, and the keys read (\<^verbatim>\<open>type\<close>, \<^verbatim>\<open>init\<close>,
  \<^verbatim>\<open>callee\<close>, \<^verbatim>\<open>property\<close>, \<^verbatim>\<open>computed\<close>, \<^verbatim>\<open>name\<close>, \<^verbatim>\<open>value\<close>, \<^verbatim>\<open>arguments\<close>,
  \<^verbatim>\<open>start\<close>, \<^verbatim>\<open>end\<close>) are undefined on primitives and arrays.
\<close>

fun get :: "jsval \<Rightarrow> string \<Rightarrow> jsval" where
  "get (JObj kvs) k = (case map_of kvs k of Some v \<Rightarrow> v | None \<Rightarrow> JUndef)"
| "get v k = JUndef"

fun is_string :: "jsval \<Rightarrow> bool" where
  "is_string (JStr s) = True"
| "is_string v = False"

text \<open>The test \<^verbatim>\<open>item && typeof item.type === "string"\<close> of the walker.\<close>

definition has_type_tag :: "jsval \<Rightarrow> bool" where
  "has_type_tag item = (truthy item \<and> is_string (get item ''type''))"

section \<open>Layer 1: the tree walker\<close>

text \<open>
  \<^verbatim>\<open>walk(node, visitor)\<close>. The visitor is a callback with side effects on the
  caller's variables; here it transforms a state \<open>'s\<close> that is threaded through the
  traversal. \<open>walk_keys\<close> is the loop over \<^verbatim>\<open>Object.keys(node)\<close> of an object,
  \<open>walk_elems\<close> the same loop when the node itself is an array (its keys are its
  indices), \<open>walk_child\<close> the loop body and \<open>walk_items\<close> the inner loop over an
  array-valued field. A primitive child has no \<^verbatim>\<open>type\<close> property, so \<open>walk_child\<close>
  skips it.
\<close>

fun walk :: "jsval \<Rightarrow> (jsval \<Rightarrow> 's \<Rightarrow> 's) \<Rightarrow> 's \<Rightarrow> 's"
  and walk_keys :: "(string \<times> jsval) list \<Rightarrow> (jsval \<Rightarrow> 's \<Rightarrow> 's) \<Rightarrow> 's \<Rightarrow> 's"
  and walk_elems :: "jsval list \<Rightarrow> (jsval \<Rightarrow> 's \<Rightarrow> 's) \<Rightarrow> 's \<Rightarrow> 's"
  and walk_child :: "jsval \<Rightarrow> (jsval \<Rightarrow> 's \<Rightarrow> 's) \<Rightarrow> 's \<Rightarrow> 's"
  and walk_items :: "jsval list \<Rightarrow> (jsval \<Rightarrow> 's \<Rightarrow> 's) \<Rightarrow> 's \<Rightarrow> 's"
where
  "walk (JObj kvs) visitor s = walk_keys kvs visitor (visitor (JObj kvs) s)"
| "walk (JArr xs) visitor s = walk_elems xs visitor (visitor (JArr xs) s)"
| "walk JUndef visitor s = s"
| "walk JNull visitor s = s"
| "walk (JBool b) visitor s = s"
| "walk (JNum n) visitor s = s"
| "walk (JStr t) visitor s = s"
| "walk_keys [] visitor s = s"
| "walk_keys ((key, child) # rest) visitor s =
     walk_keys rest visitor (walk_child child visitor s)"
| "walk_elems [] visitor s = s"
| "walk_elems (child # rest) visitor s =
     walk_elems rest visitor (walk_child child visitor s)"
| "walk_child (JArr items) visitor s = walk_items items visitor s"
| "walk_child (JObj kvs) visitor s =
     (if has_type_tag (JObj kvs) then walk (JObj kvs) visitor s else s)"
| "walk_child JUndef visitor s = s"
| "walk_child JNull visitor s = s"
| "walk_child (JBool b) visitor s = s"
| "walk_child (JNum n) visitor s = s"
| "walk_child (JStr t) visitor s = s"
| "walk_items [] visitor s = s"
| "walk_items (item # rest) visitor s =
     walk_items rest visitor (if has_type_tag item then walk item visitor s else s)"

text \<open>\<^verbatim>\<open>getPropertyName(memberExpr)\<close>; the result is a JavaScript value.\<close>

definition getPropertyName :: "jsval \<Rightarrow> jsval" where
  "getPropertyName memberExpr =
     (if \<not> truthy memberExpr \<or> \<not> truthy (get memberExpr ''property'') then JNull
      else if \<not> truthy (get memberExpr ''computed'')
              \<and> get (get memberExpr ''property'') ''type'' = JStr ''Identifier''
        then get (get memberExpr ''property'') ''name''
      else if truthy (get memberExpr ''computed'')
              \<and> get (get memberExpr ''property'') ''type'' = JStr ''Literal''
        then get (get memberExpr ''property'') ''value''
      else JNull)"

section \<open>String primitives\<close>

text \<open>
  \<^verbatim>\<open>s.slice(a, b)\<close> and \<^verbatim>\<open>s.slice(a)\<close> on integers: a negative index counts from the
  end, every index is clamped to the string, an empty or inverted range gives the empty
  string.
\<close>

definition slice_index :: "nat \<Rightarrow> int \<Rightarrow> nat" where
  "slice_index len i = (if i < 0 then nat (max (int len + i) 0) else min (nat i) len)"

definition js_slice :: "string \<Rightarrow> int \<Rightarrow> int \<Rightarrow> string" where
  "js_slice s a b =
     (let from = slice_index (length s) a; to = slice_index (length s) b
      in take (to - from) (drop from s))"

definition js_slice_from :: "string \<Rightarrow> int \<Rightarrow> string" where
  "js_slice_from s a = drop (slice_index (length s) a) s"

text \<open>\<^verbatim>\<open>hay.includes(needle)\<close>: the needle occurs at some position of the text.\<close>

fun js_includes :: "string \<Rightarrow> string \<Rightarrow> bool" where
  "js_includes [] needle = (needle = [])"
| "js_includes (c # cs) needle = (prefix needle (c # cs) \<or> js_includes cs needle)"

text \<open>
  \<^verbatim>\<open>hay.indexOf(needle, from)\<close>: the first position at or after \<open>from\<close> (clamped to
  the text) where the needle occurs, or \<open>-1\<close>.
\<close>

definition js_indexOf :: "string \<Rightarrow> string \<Rightarrow> int \<Rightarrow> int" where
  "js_indexOf hay needle from =
     (case find (\<lambda>i. prefix needle (drop i hay))
             [min (nat from) (length hay) ..< Suc (length hay)] of
        None \<Rightarrow> - 1
      | Some i \<Rightarrow> int i)"

section \<open>Layer 2: the patch rule\<close>

definition GATE_NAME :: string where
  "GATE_NAME = ''codex-extension-slash-commands''"

definition ELECTRON_FORCE_EXPR :: string where
  \<open>ELECTRON_FORCE_EXPR = ''window.codexWindowType==="electron"''\<close>

record match_result =
  start :: int
  end' :: int
  replacement :: string
  original :: string

record rule =
  rule_id :: string
  description :: string
  match :: "jsval \<Rightarrow> string \<Rightarrow> match_result option"

text \<open>
  acorn gives every node integer \<^verbatim>\<open>start\<close> and \<^verbatim>\<open>end\<close> offsets; \<open>offset\<close> reads such
  a field. (On a tree that no parser builds, where the field is not a number, the script
  would slice with a coerced index and carry the raw value along; the model reads 0
  there.)
\<close>

fun offset :: "jsval \<Rightarrow> int" where
  "offset (JNum n) = n"
| "offset v = 0"

text \<open>
  \<^verbatim>\<open>RULES[0].match(node, source)\<close>, check by check in the order of the script; \<open>None\<close>
  is its \<^verbatim>\<open>null\<close>. \<^verbatim>\<open>init.arguments\<close> is an array in every call expression that
  acorn builds, and its elements are nodes; the model returns \<open>None\<close> for any other
  truthy value of the field.
\<close>

definition enable_slash_commands_match :: "jsval \<Rightarrow> string \<Rightarrow> match_result option" where
  "enable_slash_commands_match node source =
     (if get node ''type'' \<noteq> JStr ''VariableDeclarator'' then None
      else let init = get node ''init'' in
        if \<not> truthy init \<or> get init ''type'' \<noteq> JStr ''CallExpression'' then None
        else let callee = get init ''callee'' in
          if \<not> truthy callee \<or> get callee ''type'' \<noteq> JStr ''MemberExpression'' then None
          else if getPropertyName callee \<noteq> JStr ''useGateValue'' then None
          else (case get init ''arguments'' of
              JArr [] \<Rightarrow> None
            | JArr (arg0 # _) \<Rightarrow>
                if get arg0 ''type'' \<noteq> JStr ''Literal'' \<or> get arg0 ''value'' \<noteq> JStr GATE_NAME
                then None
                else let original =
                       js_slice source (offset (get init ''start'')) (offset (get init ''end''))
                  in if js_includes original ''window.codexWindowType'' then None
                     else Some \<lparr> start = offset (get init ''start''),
                                 end' = offset (get init ''end''),
                                 replacement = ''('' @ original @ ''||'' @ ELECTRON_FORCE_EXPR @ '')'',
                                 original = original \<rparr>
            | _ \<Rightarrow> None))"

text \<open>
  The description and the change lines of the script contain the arrow U+2192, which is
  not an 8-bit character; these display texts carry its three UTF-8 bytes instead.
\<close>

definition arrow :: string where
  "arrow = [CHR 0xE2, CHR 0x86, CHR 0x92]"

definition RULES :: "rule list" where
  \<open>RULES =
     [\<lparr> rule_id = ''enable_slash_commands_in_electron'',
        description = ''useGateValue("'' @ GATE_NAME @ ''") '' @ arrow @ '' (call || ''
                        @ ELECTRON_FORCE_EXPR @ '')'',
        match = enable_slash_commands_match \<rparr>]\<close>

section \<open>Layer 3: locating the bundle, collecting and splicing patches\<close>

text \<open>
  \<^verbatim>\<open>process.exit(n)\<close> ends the run with status \<open>n\<close>; a function that may call it
  returns \<open>Inl (ProcessExit n)\<close> in that case.
\<close>

datatype failure = ProcessExit nat

text \<open>
  The file name test \<^verbatim>\<open>/^index-.*\\.js$/\<close>: the name starts with \<^verbatim>\<open>index-\<close>, ends
  with \<^verbatim>\<open>.js\<close>, and what lies between holds no line terminator, which the dot does
  not match.
\<close>

definition line_terminator :: "char \<Rightarrow> bool" where
  "line_terminator c = (c = CHR 0x0A \<or> c = CHR 0x0D)"

definition bundle_name :: "string \<Rightarrow> bool" where
  "bundle_name f =
     (9 \<le> length f \<and> take 6 f = ''index-'' \<and> drop (length f - 3) f = ''.js''
      \<and> \<not> list_ex line_terminator (take (length f - 9) (drop 6 f)))"

text \<open>
  \<^verbatim>\<open>locateBundle()\<close>. The file system is read twice: \<open>dir_exists\<close> is the answer of
  \<^verbatim>\<open>fs.existsSync(assetsDir)\<close> and \<open>entries\<close> that of \<^verbatim>\<open>fs.readdirSync(assetsDir)\<close>.
  \<open>assetsDir\<close> is the joined directory path and \<open>sep\<close> the platform's separator, so
  that \<^verbatim>\<open>path.join(assetsDir, file)\<close> is \<open>assetsDir @ sep @ file\<close>.
\<close>

definition locateBundle :: "string \<Rightarrow> string \<Rightarrow> bool \<Rightarrow> string list \<Rightarrow> failure + string" where
  "locateBundle assetsDir sep dir_exists entries =
     (if \<not> dir_exists then Inl (ProcessExit 1)
      else let files = filter bundle_name entries in
        if length files = 0 then Inl (ProcessExit 1)
        else if length files > 1 then Inl (ProcessExit 1)
        else Inr (assetsDir @ sep @ hd files))"

record patch = match_result +
  ruleId :: string

record detail =
  d_ruleId :: string
  d_position :: int
  d_change :: string

record collect_state =
  patches :: "patch list"
  details :: "detail list"
  seen :: "int set"

text \<open>
  The visitor of \<^verbatim>\<open>collectPatches\<close>: the loop \<^verbatim>\<open>for (const rule of RULES)\<close> on one
  node, updating \<^verbatim>\<open>patches\<close>, \<^verbatim>\<open>details\<close> and \<^verbatim>\<open>seen\<close>.
\<close>

fun collect_visit :: "rule list \<Rightarrow> string \<Rightarrow> jsval \<Rightarrow> collect_state \<Rightarrow> collect_state" where
  "collect_visit [] source node st = st"
| "collect_visit (rule # rules) source node st =
     collect_visit rules source node
       (case match rule node source of
          None \<Rightarrow> st
        | Some result \<Rightarrow>
            if start result \<in> seen st then st
            else st \<lparr> seen := insert (start result) (seen st),
                      patches := patches st @
                        [\<lparr> start = start result, end' = end' result,
                           replacement = replacement result, original = original result,
                           ruleId = rule_id rule \<rparr>],
                      details := details st @
                        [\<lparr> d_ruleId = rule_id rule, d_position = start result,
                           d_change = original result @ '' '' @ arrow @ '' ''
                                        @ replacement result \<rparr>] \<rparr>)"

definition collectPatches :: "jsval \<Rightarrow> string \<Rightarrow> patch list \<times> detail list" where
  "collectPatches ast source =
     (let st = walk ast (collect_visit RULES source) \<lparr> patches = [], details = [], seen = {} \<rparr>
      in (patches st, details st))"

record scan_match =
  m_ruleId :: string
  m_position :: int
  m_original :: string
  m_context :: string
  m_wouldPatch :: bool

record scan_state =
  matches :: "scan_match list"
  scan_seen :: "int set"

definition CONTEXT_CHARS :: int where
  "CONTEXT_CHARS = 60"

fun scan_visit :: "rule list \<Rightarrow> string \<Rightarrow> jsval \<Rightarrow> scan_state \<Rightarrow> scan_state" where
  "scan_visit [] source node st = st"
| "scan_visit (rule # rules) source node st =
     scan_visit rules source node
       (case match rule node source of
          None \<Rightarrow> st
        | Some result \<Rightarrow>
            if start result \<in> scan_seen st then st
            else
              let ctxStart = max 0 (start result - CONTEXT_CHARS);
                  ctxEnd = min (int (length source)) (end' result + CONTEXT_CHARS)
              in st \<lparr> scan_seen := insert (start result) (scan_seen st),
                        matches := matches st @
                          [\<lparr> m_ruleId = rule_id rule, m_position = start result,
                             m_original = original result,
                             m_context = js_slice source ctxStart ctxEnd,
                             m_wouldPatch = True \<rparr>] \<rparr>)"

definition scanMatches :: "jsval \<Rightarrow> string \<Rightarrow> scan_match list" where
  "scanMatches ast source =
     matches (walk ast (scan_visit RULES source) \<lparr> matches = [], scan_seen = {} \<rparr>)"

text \<open>
  \<^verbatim>\<open>countAllOccurrences(source)\<close>: the \<^verbatim>\<open>while\<close> loop that asks \<^verbatim>\<open>indexOf\<close> for
  the next occurrence of the needle after the last one found. The loop ends because a
  found index lies at or after \<open>idx + 1\<close> and inside the text.
\<close>

definition needle :: string where
  \<open>needle = ''"'' @ GATE_NAME @ ''"''\<close>

function count_loop :: "string \<Rightarrow> int \<Rightarrow> nat \<Rightarrow> nat" where
  "count_loop source idx tot =
     (let idx' = js_indexOf source needle (idx + 1)
      in if idx' \<noteq> - 1 then count_loop source idx' (tot + 1) else tot)"
  by pat_completeness auto
termination
proof (relation "measure (\<lambda>(source, idx, tot). nat (int (length source) - idx))")
  show "wf (measure (\<lambda>(source, idx, tot). nat (int (length source) - idx)))" by simp
next
  fix source :: string and idx :: int and tot :: nat and x
  assume x: "x = js_indexOf source needle (idx + 1)" and found: "x \<noteq> - 1"
  let ?k = "min (nat (idx + 1)) (length source)"
  let ?P = "\<lambda>i. prefix needle (drop i source)"
  obtain i where f: "find ?P [?k ..< Suc (length source)] = Some i"
    using x found by (auto simp: js_indexOf_def split: option.splits)
  then have xi: "x = int i" using x by (simp add: js_indexOf_def)
  from f obtain j where "j < length [?k ..< Suc (length source)]"
    and p: "?P i" and "i = [?k ..< Suc (length source)] ! j"
    unfolding find_Some_iff by blast
  then have "i \<in> set [?k ..< Suc (length source)]" using nth_mem by blast
  then have ki: "?k \<le> i" and "i \<le> length source" by (simp_all del: upt_Suc)
  moreover have "i \<noteq> length source" using p by (auto simp: needle_def)
  ultimately have lt: "i < length source" by simp
  with ki have "nat (idx + 1) \<le> i" by simp
  then have "idx < int i" by linarith
  then show "((source, x, tot + 1), (source, idx, tot))
        \<in> measure (\<lambda>(source, idx, tot). nat (int (length source) - idx))"
    using xi lt by simp
qed

declare count_loop.simps [simp del]

definition countAllOccurrences :: "string \<Rightarrow> nat" where
  "countAllOccurrences source = count_loop source (- 1) 0"

text \<open>
  The splice loop of \<^verbatim>\<open>main\<close>,
  \<^verbatim>\<open>code = code.slice(0, p.start) + p.replacement + code.slice(p.end)\<close> for each patch in
  turn, and the sort before it, \<^verbatim>\<open>patches.sort((a, b) => b.start - a.start)\<close>: a
  stable sort by descending start.
\<close>

fun apply_patches :: "patch list \<Rightarrow> string \<Rightarrow> string" where
  "apply_patches [] code = code"
| "apply_patches (p # ps) code =
     apply_patches ps (js_slice code 0 (start p) @ replacement p @ js_slice_from code (end' p))"

definition sort_descending :: "patch list \<Rightarrow> patch list" where
  "sort_descending ps = sort_key (\<lambda>p. - start p) ps"

section \<open>The main flow\<close>

text \<open>
  What a run leaves behind: the exit status of the process (0 when \<^verbatim>\<open>main\<close> returns),
  the text written to the bundle file if any, and the console lines that depend on the
  bundle (the three opening lines with the file name, its size and the parse time are
  left out).
\<close>

datatype message =
    CheckHeader
  | RefSummary nat nat
  | NoGateReference
  | CheckAlreadyEnabled
  | CheckNoPatchSite
  | MatchReport nat scan_match
  | AlreadyEnabled nat
  | DriftWarning nat
  | ChangeReport detail
  | PatchedSummary nat

record outcome =
  exit_status :: nat
  written :: "string option"
  console :: "message list"

text \<open>
  \<^verbatim>\<open>main()\<close> from the point where the bundle has been located, read and parsed:
  \<open>isCheck\<close> is \<^verbatim>\<open>process.argv.includes("--check")\<close>, \<open>source\<close> the text read and
  \<open>ast\<close> the tree that \<^verbatim>\<open>parse\<close> returned for it.
\<close>

definition main :: "bool \<Rightarrow> jsval \<Rightarrow> string \<Rightarrow> outcome" where
  "main isCheck ast source =
     (if isCheck then
        let ms = scanMatches ast source;
            totalRefs = countAllOccurrences source
        in if length ms = 0 then
             (if totalRefs = 0 then
                \<lparr> exit_status = 0, written = None,
                  console = [CheckHeader, RefSummary totalRefs 0, NoGateReference] \<rparr>
              else if js_includes source ELECTRON_FORCE_EXPR then
                \<lparr> exit_status = 0, written = None,
                  console = [CheckHeader, RefSummary totalRefs 0, CheckAlreadyEnabled] \<rparr>
              else
                \<lparr> exit_status = 0, written = None,
                  console = [CheckHeader, RefSummary totalRefs 0, CheckNoPatchSite] \<rparr>)
           else
             \<lparr> exit_status = 0, written = None,
               console = [CheckHeader] @ map2 MatchReport [1 ..< Suc (length ms)] ms
                           @ [RefSummary totalRefs (length ms)] \<rparr>
      else
        let (ps, ds) = collectPatches ast source
        in if length ps = 0 then
             (let totalRefs = countAllOccurrences source
              in if totalRefs = 0 then
                   \<lparr> exit_status = 0, written = None, console = [NoGateReference] \<rparr>
                 else if js_includes source ELECTRON_FORCE_EXPR then
                   \<lparr> exit_status = 0, written = None, console = [AlreadyEnabled totalRefs] \<rparr>
                 else
                   \<lparr> exit_status = 1, written = None, console = [DriftWarning totalRefs] \<rparr>)
           else
             \<lparr> exit_status = 0,
               written = Some (apply_patches (sort_descending ps) source),
               console = map ChangeReport ds @ [PatchedSummary (length ps)] \<rparr>)"

section \<open>Notions used to state the properties\<close>

text \<open>
  The nodes on which \<open>walk\<close> calls its visitor, in the order of the calls: the walk
  run with a visitor that appends the node it is given to a list.
\<close>

definition record_node :: "jsval \<Rightarrow> jsval list \<Rightarrow> jsval list" where
  "record_node node acc = acc @ [node]"

definition visits :: "jsval \<Rightarrow> jsval list" where
  "visits root = walk root record_node []"

text \<open>
  A position in a tree is the path of steps from the root: \<open>Prop k\<close> goes to the
  object held by field \<open>k\<close>, \<open>Elem k i\<close> to element \<open>i\<close> of the array held by field
  \<open>k\<close>. \<open>node_step\<close> takes one step, through an object-valued field or to an array
  element that carries a string type tag, and \<open>node_at\<close> follows a path; both are
  \<open>None\<close> when the step leaves the tree.
\<close>

datatype step = Prop string | Elem string nat

fun node_step :: "jsval \<Rightarrow> step \<Rightarrow> jsval option" where
  "node_step node (Prop k) =
     (case get node k of JObj kvs \<Rightarrow> Some (JObj kvs) | _ \<Rightarrow> None)"
| "node_step node (Elem k i) =
     (case get node k of
        JArr items \<Rightarrow>
          if i < length items \<and> has_type_tag (items ! i) then Some (items ! i) else None
      | _ \<Rightarrow> None)"

fun node_at :: "jsval \<Rightarrow> step list \<Rightarrow> jsval option" where
  "node_at node [] = Some node"
| "node_at node (st # path) =
     (case node_step node st of None \<Rightarrow> None | Some child \<Rightarrow> node_at child path)"

text \<open>
  Every object of a tree carries a string type tag (\<open>all_tagged\<close>), and no object
  lists a key twice (\<open>distinct_keys\<close>, which every JavaScript object satisfies).
\<close>

fun all_tagged :: "jsval \<Rightarrow> bool" where
  "all_tagged (JObj kvs) = (has_type_tag (JObj kvs) \<and> (\<forall>(k, v) \<in> set kvs. all_tagged v))"
| "all_tagged (JArr xs) = (\<forall>v \<in> set xs. all_tagged v)"
| "all_tagged v = True"

fun distinct_keys :: "jsval \<Rightarrow> bool" where
  "distinct_keys (JObj kvs) = (distinct (map fst kvs) \<and> (\<forall>(k, v) \<in> set kvs. distinct_keys v))"
| "distinct_keys (JArr xs) = (\<forall>v \<in> set xs. distinct_keys v)"
| "distinct_keys v = True"

fun is_object :: "jsval \<Rightarrow> bool" where
  "is_object (JObj kvs) = True"
| "is_object v = False"

text \<open>
  The children that the walker descends into from an object, each with the step that
  leads to it, and the pre-order listing of positions and nodes built from them.
\<close>

fun step_key :: "step \<Rightarrow> string" where
  "step_key (Prop k) = k"
| "step_key (Elem k i) = k"

fun item_entries :: "string \<Rightarrow> nat \<Rightarrow> jsval list \<Rightarrow> (step \<times> jsval) list" where
  "item_entries key i [] = []"
| "item_entries key i (item # rest) =
     (if has_type_tag item then [(Elem key i, item)] else []) @ item_entries key (Suc i) rest"

fun child_entries :: "string \<Rightarrow> jsval \<Rightarrow> (step \<times> jsval) list" where
  "child_entries key (JArr items) = item_entries key 0 items"
| "child_entries key child = (if has_type_tag child then [(Prop key, child)] else [])"

fun children :: "jsval \<Rightarrow> (step \<times> jsval) list" where
  "children (JObj kvs) = concat (map (\<lambda>(key, child). child_entries key child) kvs)"
| "children v = []"

function walk_order :: "jsval \<Rightarrow> (step list \<times> jsval) list" where
  "walk_order node =
     ([], node) #
     concat (map (\<lambda>(st, c). map (\<lambda>(path, n). (st # path, n)) (walk_order c)) (children node))"
  by pat_completeness auto
termination
proof (relation "measure size")
  show "wf (measure (size :: jsval \<Rightarrow> nat))" by simp
next
  fix node :: jsval and x :: "step \<times> jsval" and st c
  assume mem: "x \<in> set (children node)" and x: "(st, c) = x"
  have items: "size c' < Suc (size_list size items)"
    if "(st', c') \<in> set (item_entries key i items)" for st' c' key i items
    using that
  proof (induction items arbitrary: i)
    case Nil
    then show ?case by simp
  next
    case (Cons item rest)
    from Cons.prems have "(st', c') = (Elem key i, item) \<or> (st', c') \<in> set (item_entries key (Suc i) rest)"
      by (auto split: if_splits)
    then show ?case using Cons.IH[of "Suc i"] by auto
  qed
  have child: "size c' \<le> size ch" if "(st', c') \<in> set (child_entries key ch)" for st' c' key ch
    using that items by (cases ch) (auto split: if_splits dest: items)
  have "size c < size node"
  proof (cases node)
    case (JObj kvs)
    then obtain key ch where kc: "(key, ch) \<in> set kvs" and m: "(st, c) \<in> set (child_entries key ch)"
      using mem x by auto
    have "size ch < Suc (size_list (size_prod (\<lambda>_. 0) size) kvs)"
      using kc by (induction kvs) auto
    then show ?thesis using child[OF m] JObj by simp
  qed (use mem in auto)
  then show "(c, node) \<in> measure size" by simp
qed

declare walk_order.simps [simp del]

text \<open>
  Every match that some rule reports on some visited node, in the order in which the
  collector meets them, and the list that keeps of each start offset the first entry
  only.
\<close>

definition node_matches :: "rule list \<Rightarrow> string \<Rightarrow> jsval \<Rightarrow> patch list" where
  "node_matches rules source node =
     concat (map (\<lambda>rule. case match rule node source of
                            None \<Rightarrow> []
                          | Some result \<Rightarrow>
                              [\<lparr> start = start result, end' = end' result,
                                 replacement = replacement result, original = original result,
                                 ruleId = rule_id rule \<rparr>]) rules)"

definition all_matches :: "jsval \<Rightarrow> string \<Rightarrow> patch list" where
  "all_matches ast source = concat (map (node_matches RULES source) (visits ast))"

fun first_seen :: "('a \<Rightarrow> 'k) \<Rightarrow> 'a list \<Rightarrow> 'a list" where
  "first_seen key [] = []"
| "first_seen key (x # xs) = x # first_seen key (filter (\<lambda>y. key y \<noteq> key x) xs)"

text \<open>
  A patch set for a text: pairwise distinct starts, every range inside the text, no two
  ranges overlapping. \<open>replace_simultaneously\<close> rebuilds the text from the original
  alone: going through the ranges in ascending order, the untouched stretch before each
  range, then its replacement, then the rest after the last range.
\<close>

definition in_bounds :: "string \<Rightarrow> patch \<Rightarrow> bool" where
  "in_bounds source p = (0 \<le> start p \<and> start p \<le> end' p \<and> end' p \<le> int (length source))"

definition disjoint_ranges :: "patch \<Rightarrow> patch \<Rightarrow> bool" where
  "disjoint_ranges p q = (end' p \<le> start q \<or> end' q \<le> start p)"

fun non_overlapping :: "patch list \<Rightarrow> bool" where
  "non_overlapping [] = True"
| "non_overlapping (p # ps) = (list_all (disjoint_ranges p) ps \<and> non_overlapping ps)"

definition patch_set :: "string \<Rightarrow> patch list \<Rightarrow> bool" where
  "patch_set source ps =
     (distinct (map start ps) \<and> list_all (in_bounds source) ps \<and> non_overlapping ps)"

fun replace_from :: "string \<Rightarrow> nat \<Rightarrow> patch list \<Rightarrow> string" where
  "replace_from source pos [] = drop pos source"
| "replace_from source pos (p # ps) =
     take (nat (start p) - pos) (drop pos source) @ replacement p
       @ replace_from source (nat (end' p)) ps"

definition replace_simultaneously :: "string \<Rightarrow> patch list \<Rightarrow> string" where
  "replace_simultaneously source ps = replace_from source 0 (sort_key start ps)"

text \<open>The positions of a text at which a given string occurs.\<close>

definition occurrences :: "string \<Rightarrow> string \<Rightarrow> nat list" where
  "occurrences hay nd = filter (\<lambda>i. prefix nd (drop i hay)) [0 ..< length hay]"

section \<open>Invariants of the loops\<close>

text \<open>
  What holds of the collector's state after it has met the matches \<open>cs\<close>: the patches
  are the first-seen entries of \<open>cs\<close> and \<open>seen\<close> holds the starts of \<open>cs\<close>. The
  scanner keeps the same, up to the fields its records share with a patch.
\<close>

definition collect_inv :: "collect_state \<Rightarrow> patch list \<Rightarrow> bool" where
  "collect_inv st cs = (patches st = first_seen start cs \<and> seen st = start ` set cs)"

definition scan_inv :: "scan_state \<Rightarrow> patch list \<Rightarrow> bool" where
  "scan_inv st cs =
     (map (\<lambda>m. (m_position m, m_ruleId m, m_original m)) (matches st)
        = map (\<lambda>p. (start p, ruleId p, original p)) (first_seen start cs)
      \<and> scan_seen st = start ` set cs)"

text \<open>
  A list of patches that descends without overlap below a bound: each range is well
  formed, ends at or before the bound, and the rest of the list lies at or before its
  start.
\<close>

fun chain_desc :: "nat \<Rightarrow> patch list \<Rightarrow> bool" where
  "chain_desc bound [] = True"
| "chain_desc bound (p # ps) =
     (0 \<le> start p \<and> start p \<le> end' p \<and> nat (end' p) \<le> bound \<and> chain_desc (nat (start p)) ps)"

section \<open>Example bundles\<close>

text \<open>
  Each text below comes with the tree that acorn builds for it
  (\<^verbatim>\<open>ecmaVersion: "latest"\<close>, \<^verbatim>\<open>sourceType: "module"\<close>): fields in the order in which
  the parser assigns them, offsets counted from 0.
\<close>

text \<open>The example statement of the specification: the accessor is called bare, so the
  callee of the call is an \<^verbatim>\<open>Identifier\<close>.\<close>

definition bare_source :: string where
  \<open>bare_source =
     ''const flag = useGateValue("codex-extension-slash-commands");''\<close>

definition bare_ast :: jsval where
  \<open>bare_ast =
     JObj [(''type'', JStr ''Program''), (''start'', JNum 0), (''end'', JNum 60),
       (''body'', JArr [JObj [(''type'', JStr ''VariableDeclaration''), (''start'', JNum 0), (''end'', JNum 60),
           (''declarations'', JArr [JObj [(''type'', JStr ''VariableDeclarator''), (''start'', JNum 6), (''end'', JNum 59),
               (''id'', JObj [(''type'', JStr ''Identifier''), (''start'', JNum 6), (''end'', JNum 10),
                 (''name'', JStr ''flag'')]),
               (''init'', JObj [(''type'', JStr ''CallExpression''), (''start'', JNum 13), (''end'', JNum 59),
                 (''callee'', JObj [(''type'', JStr ''Identifier''), (''start'', JNum 13), (''end'', JNum 25),
                   (''name'', JStr ''useGateValue'')]),
                 (''arguments'', JArr [JObj [(''type'', JStr ''Literal''), (''start'', JNum 26), (''end'', JNum 58),
                     (''value'', JStr ''codex-extension-slash-commands''),
                     (''raw'', JStr ''"codex-extension-slash-commands"'')]]),
                 (''optional'', JBool False)])]]),
           (''kind'', JStr ''const'')]]),
       (''sourceType'', JStr ''module'')]\<close>

text \<open>The same statement with the accessor called as a member of an object.\<close>

definition member_source :: string where
  \<open>member_source =
     ''const flag = obj.useGateValue("codex-extension-slash-commands");''\<close>

definition member_ast :: jsval where
  \<open>member_ast =
     JObj [(''type'', JStr ''Program''), (''start'', JNum 0), (''end'', JNum 64),
       (''body'', JArr [JObj [(''type'', JStr ''VariableDeclaration''), (''start'', JNum 0), (''end'', JNum 64),
           (''declarations'', JArr [JObj [(''type'', JStr ''VariableDeclarator''), (''start'', JNum 6), (''end'', JNum 63),
               (''id'', JObj [(''type'', JStr ''Identifier''), (''start'', JNum 6), (''end'', JNum 10),
                 (''name'', JStr ''flag'')]),
               (''init'', JObj [(''type'', JStr ''CallExpression''), (''start'', JNum 13), (''end'', JNum 63),
                 (''callee'', JObj [(''type'', JStr ''MemberExpression''), (''start'', JNum 13), (''end'', JNum 29),
                   (''object'', JObj [(''type'', JStr ''Identifier''), (''start'', JNum 13), (''end'', JNum 16),
                     (''name'', JStr ''obj'')]),
                   (''property'', JObj [(''type'', JStr ''Identifier''), (''start'', JNum 17), (''end'', JNum 29),
                     (''name'', JStr ''useGateValue'')]),
                   (''computed'', JBool False),
                   (''optional'', JBool False)]),
                 (''arguments'', JArr [JObj [(''type'', JStr ''Literal''), (''start'', JNum 30), (''end'', JNum 62),
                     (''value'', JStr ''codex-extension-slash-commands''),
                     (''raw'', JStr ''"codex-extension-slash-commands"'')]]),
                 (''optional'', JBool False)])]]),
           (''kind'', JStr ''const'')]]),
       (''sourceType'', JStr ''module'')]\<close>

text \<open>The text that the patcher writes for the previous bundle, parsed again: the
  parentheses leave no node, the initializer is a \<^verbatim>\<open>LogicalExpression\<close>.\<close>

definition patched_source :: string where
  \<open>patched_source =
     ''const flag = (obj.useGateValue("codex-extension-slash-commands")||window.codexWindowType==="electron");''\<close>

definition patched_ast :: jsval where
  \<open>patched_ast =
     JObj [(''type'', JStr ''Program''), (''start'', JNum 0), (''end'', JNum 103),
       (''body'', JArr [JObj [(''type'', JStr ''VariableDeclaration''), (''start'', JNum 0), (''end'', JNum 103),
           (''declarations'', JArr [JObj [(''type'', JStr ''VariableDeclarator''), (''start'', JNum 6), (''end'', JNum 102),
               (''id'', JObj [(''type'', JStr ''Identifier''), (''start'', JNum 6), (''end'', JNum 10),
                 (''name'', JStr ''flag'')]),
               (''init'', JObj [(''type'', JStr ''LogicalExpression''), (''start'', JNum 14), (''end'', JNum 101),
                 (''left'', JObj [(''type'', JStr ''CallExpression''), (''start'', JNum 14), (''end'', JNum 64),
                   (''callee'', JObj [(''type'', JStr ''MemberExpression''), (''start'', JNum 14), (''end'', JNum 30),
                     (''object'', JObj [(''type'', JStr ''Identifier''), (''start'', JNum 14), (''end'', JNum 17),
                       (''name'', JStr ''obj'')]),
                     (''property'', JObj [(''type'', JStr ''Identifier''), (''start'', JNum 18), (''end'', JNum 30),
                       (''name'', JStr ''useGateValue'')]),
                     (''computed'', JBool False),
                     (''optional'', JBool False)]),
                   (''arguments'', JArr [JObj [(''type'', JStr ''Literal''), (''start'', JNum 31), (''end'', JNum 63),
                       (''value'', JStr ''codex-extension-slash-commands''),
                       (''raw'', JStr ''"codex-extension-slash-commands"'')]]),
                   (''optional'', JBool False)]),
                 (''operator'', JStr ''||''),
                 (''right'', JObj [(''type'', JStr ''BinaryExpression''), (''start'', JNum 66), (''end'', JNum 101),
                   (''left'', JObj [(''type'', JStr ''MemberExpression''), (''start'', JNum 66), (''end'', JNum 88),
                     (''object'', JObj [(''type'', JStr ''Identifier''), (''start'', JNum 66), (''end'', JNum 72),
                       (''name'', JStr ''window'')]),
                     (''property'', JObj [(''type'', JStr ''Identifier''), (''start'', JNum 73), (''end'', JNum 88),
                       (''name'', JStr ''codexWindowType'')]),
                     (''computed'', JBool False),
                     (''optional'', JBool False)]),
                   (''operator'', JStr ''===''),
                   (''right'', JObj [(''type'', JStr ''Literal''), (''start'', JNum 91), (''end'', JNum 101),
                     (''value'', JStr ''electron''),
                     (''raw'', JStr ''"electron"'')])])])]]),
           (''kind'', JStr ''const'')]]),
       (''sourceType'', JStr ''module'')]\<close>

text \<open>A bundle that mentions the quoted gate name in a comment only. Comments leave
  no node in the tree.\<close>

definition comment_source :: string where
  \<open>comment_source =
     ''// "codex-extension-slash-commands"\<newline>const x = 1;''\<close>

definition comment_ast :: jsval where
  \<open>comment_ast =
     JObj [(''type'', JStr ''Program''), (''start'', JNum 0), (''end'', JNum 48),
       (''body'', JArr [JObj [(''type'', JStr ''VariableDeclaration''), (''start'', JNum 36), (''end'', JNum 48),
           (''declarations'', JArr [JObj [(''type'', JStr ''VariableDeclarator''), (''start'', JNum 42), (''end'', JNum 47),
               (''id'', JObj [(''type'', JStr ''Identifier''), (''start'', JNum 42), (''end'', JNum 43),
                 (''name'', JStr ''x'')]),
               (''init'', JObj [(''type'', JStr ''Literal''), (''start'', JNum 46), (''end'', JNum 47),
                 (''value'', JNum 1),
                 (''raw'', JStr ''1'')])]]),
           (''kind'', JStr ''const'')]]),
       (''sourceType'', JStr ''module'')]\<close>

text \<open>A bundle whose gate name literal is written with single quotes.\<close>

definition single_source :: string where
  \<open>single_source =
     (''const f=o.useGateValue('' @ [CHR 0x27] @ ''codex-extension-slash-commands'' @ [CHR 0x27] @ '');'')\<close>

definition single_ast :: jsval where
  \<open>single_ast =
     JObj [(''type'', JStr ''Program''), (''start'', JNum 0), (''end'', JNum 57),
       (''body'', JArr [JObj [(''type'', JStr ''VariableDeclaration''), (''start'', JNum 0), (''end'', JNum 57),
           (''declarations'', JArr [JObj [(''type'', JStr ''VariableDeclarator''), (''start'', JNum 6), (''end'', JNum 56),
               (''id'', JObj [(''type'', JStr ''Identifier''), (''start'', JNum 6), (''end'', JNum 7),
                 (''name'', JStr ''f'')]),
               (''init'', JObj [(''type'', JStr ''CallExpression''), (''start'', JNum 8), (''end'', JNum 56),
                 (''callee'', JObj [(''type'', JStr ''MemberExpression''), (''start'', JNum 8), (''end'', JNum 22),
                   (''object'', JObj [(''type'', JStr ''Identifier''), (''start'', JNum 8), (''end'', JNum 9),
                     (''name'', JStr ''o'')]),
                   (''property'', JObj [(''type'', JStr ''Identifier''), (''start'', JNum 10), (''end'', JNum 22),
                     (''name'', JStr ''useGateValue'')]),
                   (''computed'', JBool False),
                   (''optional'', JBool False)]),
                 (''arguments'', JArr [JObj [(''type'', JStr ''Literal''), (''start'', JNum 23), (''end'', JNum 55),
                     (''value'', JStr ''codex-extension-slash-commands''),
                     (''raw'', JStr ([CHR 0x27] @ ''codex-extension-slash-commands'' @ [CHR 0x27]))]]),
                 (''optional'', JBool False)])]]),
           (''kind'', JStr ''const'')]]),
       (''sourceType'', JStr ''module'')]\<close>

text \<open>A bundle in which one matching declaration lies inside the initializer of
  another: the second argument of the outer call is a function whose body declares \<^verbatim>\<open>b\<close>.
  The third argument follows a line comment.\<close>

definition nested_source :: string where
  \<open>nested_source =
     ''const a=x.useGateValue("codex-extension-slash-commands",()=>{const b=y.useGateValue("codex-extension-slash-commands")},//(\<newline>pppppppppppppppppppppppppppppppppppp);''\<close>

definition nested_ast :: jsval where
  \<open>nested_ast =
     JObj [(''type'', JStr ''Program''), (''start'', JNum 0), (''end'', JNum 161),
       (''body'', JArr [JObj [(''type'', JStr ''VariableDeclaration''), (''start'', JNum 0), (''end'', JNum 161),
           (''declarations'', JArr [JObj [(''type'', JStr ''VariableDeclarator''), (''start'', JNum 6), (''end'', JNum 160),
               (''id'', JObj [(''type'', JStr ''Identifier''), (''start'', JNum 6), (''end'', JNum 7),
                 (''name'', JStr ''a'')]),
               (''init'', JObj [(''type'', JStr ''CallExpression''), (''start'', JNum 8), (''end'', JNum 160),
                 (''callee'', JObj [(''type'', JStr ''MemberExpression''), (''start'', JNum 8), (''end'', JNum 22),
                   (''object'', JObj [(''type'', JStr ''Identifier''), (''start'', JNum 8), (''end'', JNum 9),
                     (''name'', JStr ''x'')]),
                   (''property'', JObj [(''type'', JStr ''Identifier''), (''start'', JNum 10), (''end'', JNum 22),
                     (''name'', JStr ''useGateValue'')]),
                   (''computed'', JBool False),
                   (''optional'', JBool False)]),
                 (''arguments'', JArr [JObj [(''type'', JStr ''Literal''), (''start'', JNum 23), (''end'', JNum 55),
                     (''value'', JStr ''codex-extension-slash-commands''),
                     (''raw'', JStr ''"codex-extension-slash-commands"'')],
                   JObj [(''type'', JStr ''ArrowFunctionExpression''), (''start'', JNum 56), (''end'', JNum 118),
                     (''id'', JNull),
                     (''expression'', JBool False),
                     (''generator'', JBool False),
                     (''async'', JBool False),
                     (''params'', JArr []),
                     (''body'', JObj [(''type'', JStr ''BlockStatement''), (''start'', JNum 60), (''end'', JNum 118),
                       (''body'', JArr [JObj [(''type'', JStr ''VariableDeclaration''), (''start'', JNum 61), (''end'', JNum 117),
                           (''declarations'', JArr [JObj [(''type'', JStr ''VariableDeclarator''), (''start'', JNum 67), (''end'', JNum 117),
                               (''id'', JObj [(''type'', JStr ''Identifier''), (''start'', JNum 67), (''end'', JNum 68),
                                 (''name'', JStr ''b'')]),
                               (''init'', JObj [(''type'', JStr ''CallExpression''), (''start'', JNum 69), (''end'', JNum 117),
                                 (''callee'', JObj [(''type'', JStr ''MemberExpression''), (''start'', JNum 69), (''end'', JNum 83),
                                   (''object'', JObj [(''type'', JStr ''Identifier''), (''start'', JNum 69), (''end'', JNum 70),
                                     (''name'', JStr ''y'')]),
                                   (''property'', JObj [(''type'', JStr ''Identifier''), (''start'', JNum 71), (''end'', JNum 83),
                                     (''name'', JStr ''useGateValue'')]),
                                   (''computed'', JBool False),
                                   (''optional'', JBool False)]),
                                 (''arguments'', JArr [JObj [(''type'', JStr ''Literal''), (''start'', JNum 84), (''end'', JNum 116),
                                     (''value'', JStr ''codex-extension-slash-commands''),
                                     (''raw'', JStr ''"codex-extension-slash-commands"'')]]),
                                 (''optional'', JBool False)])]]),
                           (''kind'', JStr ''const'')]])])],
                   JObj [(''type'', JStr ''Identifier''), (''start'', JNum 123), (''end'', JNum 159),
                     (''name'', JStr ''pppppppppppppppppppppppppppppppppppp'')]]),
                 (''optional'', JBool False)])]]),
           (''kind'', JStr ''const'')]]),
       (''sourceType'', JStr ''module'')]\<close>

text \<open>The text of the previous bundle after one run of the patcher, parsed again: the
  initializer of \<^verbatim>\<open>a\<close> is a call whose callee is the parenthesised disjunction.\<close>

definition nested_once_source :: string where
  \<open>nested_once_source =
     ''const a=(x.useGateValue("codex-extension-slash-commands",()=>{const b=y.useGateValue("codex-extension-slash-commands")},//(\<newline>pppppppppppppppppppppppppppppppppppp)||window.codexWindowType==="electron")(\<newline>pppppppppppppppppppppppppppppppppppp);''\<close>

definition nested_once_ast :: jsval where
  \<open>nested_once_ast =
     JObj [(''type'', JStr ''Program''), (''start'', JNum 0), (''end'', JNum 239),
       (''body'', JArr [JObj [(''type'', JStr ''VariableDeclaration''), (''start'', JNum 0), (''end'', JNum 239),
           (''declarations'', JArr [JObj [(''type'', JStr ''VariableDeclarator''), (''start'', JNum 6), (''end'', JNum 238),
               (''id'', JObj [(''type'', JStr ''Identifier''), (''start'', JNum 6), (''end'', JNum 7),
                 (''name'', JStr ''a'')]),
               (''init'', JObj [(''type'', JStr ''CallExpression''), (''start'', JNum 8), (''end'', JNum 238),
                 (''callee'', JObj [(''type'', JStr ''LogicalExpression''), (''start'', JNum 9), (''end'', JNum 198),
                   (''left'', JObj [(''type'', JStr ''CallExpression''), (''start'', JNum 9), (''end'', JNum 161),
                     (''callee'', JObj [(''type'', JStr ''MemberExpression''), (''start'', JNum 9), (''end'', JNum 23),
                       (''object'', JObj [(''type'', JStr ''Identifier''), (''start'', JNum 9), (''end'', JNum 10),
                         (''name'', JStr ''x'')]),
                       (''property'', JObj [(''type'', JStr ''Identifier''), (''start'', JNum 11), (''end'', JNum 23),
                         (''name'', JStr ''useGateValue'')]),
                       (''computed'', JBool False),
                       (''optional'', JBool False)]),
                     (''arguments'', JArr [JObj [(''type'', JStr ''Literal''), (''start'', JNum 24), (''end'', JNum 56),
                         (''value'', JStr ''codex-extension-slash-commands''),
                         (''raw'', JStr ''"codex-extension-slash-commands"'')],
                       JObj [(''type'', JStr ''ArrowFunctionExpression''), (''start'', JNum 57), (''end'', JNum 119),
                         (''id'', JNull),
                         (''expression'', JBool False),
                         (''generator'', JBool False),
                         (''async'', JBool False),
                         (''params'', JArr []),
                         (''body'', JObj [(''type'', JStr ''BlockStatement''), (''start'', JNum 61), (''end'', JNum 119),
                           (''body'', JArr [JObj [(''type'', JStr ''VariableDeclaration''), (''start'', JNum 62), (''end'', JNum 118),
                               (''declarations'', JArr [JObj [(''type'', JStr ''VariableDeclarator''), (''start'', JNum 68), (''end'', JNum 118),
                                   (''id'', JObj [(''type'', JStr ''Identifier''), (''start'', JNum 68), (''end'', JNum 69),
                                     (''name'', JStr ''b'')]),
                                   (''init'', JObj [(''type'', JStr ''CallExpression''), (''start'', JNum 70), (''end'', JNum 118),
                                     (''callee'', JObj [(''type'', JStr ''MemberExpression''), (''start'', JNum 70), (''end'', JNum 84),
                                       (''object'', JObj [(''type'', JStr ''Identifier''), (''start'', JNum 70), (''end'', JNum 71),
                                         (''name'', JStr ''y'')]),
                                       (''property'', JObj [(''type'', JStr ''Identifier''), (''start'', JNum 72), (''end'', JNum 84),
                                         (''name'', JStr ''useGateValue'')]),
                                       (''computed'', JBool False),
                                       (''optional'', JBool False)]),
                                     (''arguments'', JArr [JObj [(''type'', JStr ''Literal''), (''start'', JNum 85), (''end'', JNum 117),
                                         (''value'', JStr ''codex-extension-slash-commands''),
                                         (''raw'', JStr ''"codex-extension-slash-commands"'')]]),
                                     (''optional'', JBool False)])]]),
                               (''kind'', JStr ''const'')]])])],
                       JObj [(''type'', JStr ''Identifier''), (''start'', JNum 124), (''end'', JNum 160),
                         (''name'', JStr ''pppppppppppppppppppppppppppppppppppp'')]]),
                     (''optional'', JBool False)]),
                   (''operator'', JStr ''||''),
                   (''right'', JObj [(''type'', JStr ''BinaryExpression''), (''start'', JNum 163), (''end'', JNum 198),
                     (''left'', JObj [(''type'', JStr ''MemberExpression''), (''start'', JNum 163), (''end'', JNum 185),
                       (''object'', JObj [(''type'', JStr ''Identifier''), (''start'', JNum 163), (''end'', JNum 169),
                         (''name'', JStr ''window'')]),
                       (''property'', JObj [(''type'', JStr ''Identifier''), (''start'', JNum 170), (''end'', JNum 185),
                         (''name'', JStr ''codexWindowType'')]),
                       (''computed'', JBool False),
                       (''optional'', JBool False)]),
                     (''operator'', JStr ''===''),
                     (''right'', JObj [(''type'', JStr ''Literal''), (''start'', JNum 188), (''end'', JNum 198),
                       (''value'', JStr ''electron''),
                       (''raw'', JStr ''"electron"'')])])]),
                 (''arguments'', JArr [JObj [(''type'', JStr ''Identifier''), (''start'', JNum 201), (''end'', JNum 237),
                     (''name'', JStr ''pppppppppppppppppppppppppppppppppppp'')]]),
                 (''optional'', JBool False)])]]),
           (''kind'', JStr ''const'')]]),
       (''sourceType'', JStr ''module'')]\<close>


text \<open>
  A tree that holds the declaration of the second bundle twice, so that two visited
  nodes report a match with the same start offset.
\<close>

definition repeated_ast :: jsval where
  "repeated_ast =
     JObj [(''type'', JStr ''Program''), (''start'', JNum 0), (''end'', JNum 64),
           (''body'', JArr [member_ast, member_ast])]"

text \<open>
  Three patches for the text \<^verbatim>\<open>abcdefghij\<close>, out of order: a replacement, a deletion
  and an insertion.
\<close>

definition example_patches :: "patch list" where
  "example_patches =
     [\<lparr> start = 2, end' = 4, replacement = ''XYZ'', original = ''cd'', ruleId = ''r'' \<rparr>,
      \<lparr> start = 8, end' = 9, replacement = [], original = ''i'', ruleId = ''r'' \<rparr>,
      \<lparr> start = 5, end' = 5, replacement = ''+'', original = [], ruleId = ''r'' \<rparr>]"

section \<open>The walk as a fold over the visited nodes\<close>

lemma record_split:
  "\<forall>a1 a2. acc = a1 @ a2 \<longrightarrow> walk node record_node acc = a1 @ walk node record_node a2"
  "\<forall>a1 a2. acc = a1 @ a2 \<longrightarrow> walk_keys kvs record_node acc = a1 @ walk_keys kvs record_node a2"
  "\<forall>a1 a2. acc = a1 @ a2 \<longrightarrow> walk_elems xs record_node acc = a1 @ walk_elems xs record_node a2"
  "\<forall>a1 a2. acc = a1 @ a2 \<longrightarrow> walk_child child record_node acc = a1 @ walk_child child record_node a2"
  "\<forall>a1 a2. acc = a1 @ a2 \<longrightarrow> walk_items items record_node acc = a1 @ walk_items items record_node a2"
proof (induction node "record_node" acc and kvs "record_node" acc and xs "record_node" acc
         and child "record_node" acc and items "record_node" acc
       rule: walk_walk_keys_walk_elems_walk_child_walk_items.induct)
  case (9 key child rest s)
  show ?case
  proof (intro allI impI)
    fix a1 a2 assume s: "s = a1 @ a2"
    then have c: "walk_child child record_node s = a1 @ walk_child child record_node a2"
      using "9"(1) by blast
    show "walk_keys ((key, child) # rest) record_node s = a1 @ walk_keys ((key, child) # rest) record_node a2"
      using "9"(2) c by simp
  qed
next
  case (11 child rest s)
  show ?case
  proof (intro allI impI)
    fix a1 a2 assume s: "s = a1 @ a2"
    then have c: "walk_child child record_node s = a1 @ walk_child child record_node a2"
      using "11"(1) by blast
    show "walk_elems (child # rest) record_node s = a1 @ walk_elems (child # rest) record_node a2"
      using "11"(2) c by simp
  qed
next
  case (20 item rest s)
  show ?case
  proof (intro allI impI)
    fix a1 a2 assume s: "s = a1 @ a2"
    let ?f = "\<lambda>acc. if has_type_tag item then walk item record_node acc else acc"
    have c: "?f s = a1 @ ?f a2"
      using "20"(1) s by simp
    show "walk_items (item # rest) record_node s = a1 @ walk_items (item # rest) record_node a2"
      using "20"(2) c by simp
  qed
qed (simp_all add: record_node_def)

lemma record_append:
  "walk node record_node acc = acc @ walk node record_node []"
  "walk_keys kvs record_node acc = acc @ walk_keys kvs record_node []"
  "walk_child child record_node acc = acc @ walk_child child record_node []"
  "walk_elems xs record_node acc = acc @ walk_elems xs record_node []"
  "walk_items items record_node acc = acc @ walk_items items record_node []"
proof -
  have e: "acc = acc @ []" by simp
  show "walk node record_node acc = acc @ walk node record_node []"
    using record_split(1) e by blast
  show "walk_keys kvs record_node acc = acc @ walk_keys kvs record_node []"
    using record_split(2) e by blast
  show "walk_child child record_node acc = acc @ walk_child child record_node []"
    using record_split(4) e by blast
  show "walk_elems xs record_node acc = acc @ walk_elems xs record_node []"
    using record_split(3) e by blast
  show "walk_items items record_node acc = acc @ walk_items items record_node []"
    using record_split(5) e by blast
qed

lemma walk_fold:
  "walk node v s = fold v (walk node record_node []) s"
  "walk_keys kvs v s = fold v (walk_keys kvs record_node []) s"
  "walk_elems xs v s = fold v (walk_elems xs record_node []) s"
  "walk_child child v s = fold v (walk_child child record_node []) s"
  "walk_items items v s = fold v (walk_items items record_node []) s"
proof (induction node v s and kvs v s and xs v s and child v s and items v s
       rule: walk_walk_keys_walk_elems_walk_child_walk_items.induct)
  case (1 kvs visitor s)
  have "walk (JObj kvs) record_node [] = walk_keys kvs record_node [JObj kvs]"
    by (simp add: record_node_def)
  then have "walk (JObj kvs) record_node [] = JObj kvs # walk_keys kvs record_node []"
    using record_append(2)[of kvs "[JObj kvs]"] by simp
  then show ?case using 1 by simp
next
  case (2 xs visitor s)
  have "walk (JArr xs) record_node [] = walk_elems xs record_node [JArr xs]"
    by (simp add: record_node_def)
  then have "walk (JArr xs) record_node [] = JArr xs # walk_elems xs record_node []"
    using record_append(4)[of xs "[JArr xs]"] by simp
  then show ?case using 2 by simp
next
  case (9 key child rest visitor s)
  then show ?case
    using record_append(2)[of rest "walk_child child record_node []"] by simp
next
  case (11 child rest visitor s)
  then show ?case
    using record_append(4)[of rest "walk_child child record_node []"] by simp
next
  case (20 item rest visitor s)
  then show ?case
    using record_append(5)[of rest "walk item record_node []"] by simp
qed simp_all

lemma walk_fold_visits: "walk root v s = fold v (visits root) s"
  unfolding visits_def by (rule walk_fold(1))

section \<open>The collector and the scanner keep the first match of each start\<close>

lemma first_seen_keys: "key ` set (first_seen key xs) = key ` set xs"
proof (induction key xs rule: first_seen.induct)
  case (2 key x xs)
  then show ?case by auto
qed simp

lemma first_seen_snoc:
  "first_seen key (xs @ [c]) =
     (if key c \<in> key ` set xs then first_seen key xs else first_seen key xs @ [c])"
proof (induction key xs rule: first_seen.induct)
  case (2 key x xs)
  then show ?case by auto
qed simp

lemma first_seen_distinct: "distinct (map key (first_seen key xs))"
proof (induction key xs rule: first_seen.induct)
  case (2 key x xs)
  have "key x \<notin> key ` set (first_seen key (filter (\<lambda>y. key y \<noteq> key x) xs))"
    unfolding first_seen_keys by auto
  with 2 show ?case by auto
qed simp

lemma collect_visit_inv:
  "collect_inv st cs \<Longrightarrow>
   collect_inv (collect_visit rules source node st) (cs @ node_matches rules source node)"
proof (induction rules arbitrary: st cs)
  case Nil
  then show ?case by (simp add: node_matches_def)
next
  case (Cons rule rules)
  let ?m = "node_matches [rule] source node"
  let ?st = "case match rule node source of
          None \<Rightarrow> st
        | Some result \<Rightarrow>
            if start result \<in> seen st then st
            else st \<lparr> seen := insert (start result) (seen st),
                      patches := patches st @
                        [\<lparr> start = start result, end' = end' result,
                           replacement = replacement result, original = original result,
                           ruleId = rule_id rule \<rparr>],
                      details := details st @
                        [\<lparr> d_ruleId = rule_id rule, d_position = start result,
                           d_change = original result @ '' '' @ arrow @ '' ''
                                        @ replacement result \<rparr>] \<rparr>"
  have "collect_inv ?st (cs @ ?m)"
    using Cons.prems
    by (auto simp: collect_inv_def node_matches_def first_seen_snoc split: option.splits)
  from Cons.IH[OF this] show ?case
    by (simp add: node_matches_def)
qed

lemma collect_fold_inv:
  "collect_inv st cs \<Longrightarrow>
   collect_inv (fold (collect_visit rules source) nodes st)
               (cs @ concat (map (node_matches rules source) nodes))"
proof (induction nodes arbitrary: st cs)
  case (Cons node nodes)
  from Cons.IH[OF collect_visit_inv[OF Cons.prems]] show ?case by simp
qed simp

lemma collectPatches_first_seen:
  "fst (collectPatches ast source) = first_seen start (all_matches ast source)"
proof -
  have "collect_inv \<lparr> patches = [], details = [], seen = {} \<rparr> []"
    by (simp add: collect_inv_def)
  from collect_fold_inv[OF this, of RULES source "visits ast"]
  show ?thesis
    by (simp add: collectPatches_def all_matches_def walk_fold_visits collect_inv_def Let_def)
qed

lemma scan_visit_inv:
  "scan_inv st cs \<Longrightarrow>
   scan_inv (scan_visit rules source node st) (cs @ node_matches rules source node)"
proof (induction rules arbitrary: st cs)
  case Nil
  then show ?case by (simp add: node_matches_def)
next
  case (Cons rule rules)
  let ?m = "node_matches [rule] source node"
  let ?st = "case match rule node source of
          None \<Rightarrow> st
        | Some result \<Rightarrow>
            if start result \<in> scan_seen st then st
            else
              let ctxStart = max 0 (start result - CONTEXT_CHARS);
                  ctxEnd = min (int (length source)) (end' result + CONTEXT_CHARS)
              in st \<lparr> scan_seen := insert (start result) (scan_seen st),
                        matches := matches st @
                          [\<lparr> m_ruleId = rule_id rule, m_position = start result,
                             m_original = original result,
                             m_context = js_slice source ctxStart ctxEnd,
                             m_wouldPatch = True \<rparr>] \<rparr>"
  have "scan_inv ?st (cs @ ?m)"
    using Cons.prems
    by (auto simp: scan_inv_def node_matches_def first_seen_snoc Let_def split: option.splits)
  from Cons.IH[OF this] show ?case
    by (simp add: node_matches_def)
qed

lemma scan_fold_inv:
  "scan_inv st cs \<Longrightarrow>
   scan_inv (fold (scan_visit rules source) nodes st)
            (cs @ concat (map (node_matches rules source) nodes))"
proof (induction nodes arbitrary: st cs)
  case (Cons node nodes)
  from Cons.IH[OF scan_visit_inv[OF Cons.prems]] show ?case by simp
qed simp

lemma scanMatches_first_seen:
  "map (\<lambda>m. (m_position m, m_ruleId m, m_original m)) (scanMatches ast source)
     = map (\<lambda>p. (start p, ruleId p, original p)) (first_seen start (all_matches ast source))"
proof -
  have "scan_inv \<lparr> matches = [], scan_seen = {} \<rparr> []"
    by (simp add: scan_inv_def)
  from scan_fold_inv[OF this, of RULES source "visits ast"]
  show ?thesis
    by (simp add: scanMatches_def all_matches_def walk_fold_visits scan_inv_def)
qed

section \<open>Splicing a descending chain of patches\<close>

lemma js_slice_prefix: "0 \<le> a \<Longrightarrow> js_slice code 0 a = take (nat a) code"
  by (simp add: js_slice_def slice_index_def Let_def min_def)

lemma js_slice_from_suffix: "0 \<le> b \<Longrightarrow> js_slice_from code b = drop (nat b) code"
  by (simp add: js_slice_from_def slice_index_def min_def)

lemma chain_desc_mono: "chain_desc b ds \<Longrightarrow> b \<le> b' \<Longrightarrow> chain_desc b' ds"
  by (cases ds) auto

lemma chain_desc_starts:
  "chain_desc b ds \<Longrightarrow> q \<in> set ds \<Longrightarrow> 0 \<le> start q \<and> nat (start q) \<le> b"
proof (induction ds arbitrary: b)
  case (Cons p ps)
  show ?case
  proof (cases "q = p")
    case True
    then show ?thesis using Cons.prems by auto
  next
    case False
    then have "0 \<le> start q \<and> nat (start q) \<le> nat (start p)"
      using Cons by auto
    then show ?thesis using Cons.prems by auto
  qed
qed simp

lemma splice_append:
  "chain_desc (length pre) ds \<Longrightarrow> apply_patches ds (pre @ suf) = apply_patches ds pre @ suf"
proof (induction ds arbitrary: pre)
  case (Cons p rest)
  let ?pre' = "take (nat (start p)) pre @ replacement p @ drop (nat (end' p)) pre"
  from Cons.prems have b: "0 \<le> start p" "start p \<le> end' p" "nat (end' p) \<le> length pre"
    and c: "chain_desc (nat (start p)) rest" by auto
  have "nat (start p) \<le> length ?pre'" using b by simp
  then have c': "chain_desc (length ?pre') rest" using c chain_desc_mono by blast
  have "apply_patches (p # rest) (pre @ suf) = apply_patches rest (?pre' @ suf)"
    using b by (simp add: js_slice_prefix js_slice_from_suffix)
  also have "\<dots> = apply_patches rest ?pre' @ suf" by (rule Cons.IH[OF c'])
  also have "apply_patches rest ?pre' = apply_patches (p # rest) pre"
    using b by (simp add: js_slice_prefix js_slice_from_suffix)
  finally show ?case .
qed simp

lemma replace_from_snoc:
  "\<forall>q \<in> set qs. nat (start q) \<le> nat (start p) \<Longrightarrow>
   replace_from source pos (qs @ [p]) =
     replace_from (take (nat (start p)) source) pos qs @ replacement p
       @ drop (nat (end' p)) source"
proof (induction qs arbitrary: pos)
  case Nil
  show ?case by (simp add: drop_take)
next
  case (Cons q qs)
  have "take (nat (start q) - pos) (drop pos (take (nat (start p)) source))
          = take (nat (start q) - pos) (drop pos source)"
  proof -
    from Cons.prems have "nat (start q) \<le> nat (start p)" by simp
    then have "nat (start q) - pos \<le> nat (start p) - pos" by (rule diff_le_mono)
    then show ?thesis by (simp add: drop_take min_def)
  qed
  then show ?case using Cons by simp
qed

lemma splice_chain:
  "chain_desc (length source) ds \<Longrightarrow> apply_patches ds source = replace_from source 0 (rev ds)"
proof (induction ds arbitrary: source)
  case (Cons p rest)
  let ?sp = "nat (start p)"
  from Cons.prems have b: "0 \<le> start p" "start p \<le> end' p" "nat (end' p) \<le> length source"
    and c: "chain_desc ?sp rest" by auto
  have len: "length (take ?sp source) = ?sp" using b by simp
  have "apply_patches (p # rest) source
          = apply_patches rest (take ?sp source @ (replacement p @ drop (nat (end' p)) source))"
    using b by (simp add: js_slice_prefix js_slice_from_suffix)
  also have "\<dots> = apply_patches rest (take ?sp source) @ replacement p @ drop (nat (end' p)) source"
    using splice_append[of "take ?sp source" rest] c len by simp
  also have "apply_patches rest (take ?sp source) = replace_from (take ?sp source) 0 (rev rest)"
    using Cons.IH[of "take ?sp source"] c len by simp
  also have "replace_from (take ?sp source) 0 (rev rest) @ replacement p
               @ drop (nat (end' p)) source = replace_from source 0 (rev rest @ [p])"
    using replace_from_snoc[of "rev rest" p source 0] chain_desc_starts[OF c] by simp
  finally show ?case by simp
qed simp

lemma disjoint_ranges_sym: "disjoint_ranges p q \<Longrightarrow> disjoint_ranges q p"
  by (auto simp: disjoint_ranges_def)

lemma non_overlapping_set:
  "non_overlapping ps \<Longrightarrow> p \<in> set ps \<Longrightarrow> q \<in> set ps \<Longrightarrow> p \<noteq> q \<Longrightarrow> disjoint_ranges p q"
proof (induction ps)
  case (Cons a ps)
  then show ?case
    by (auto simp: list_all_iff dest: disjoint_ranges_sym)
qed simp

lemma sorted_chain:
  assumes "sorted (map (\<lambda>p. - start p) ds)" and "distinct (map start ds)"
    and "\<forall>p \<in> set ds. in_bounds source p"
    and "\<forall>p \<in> set ds. \<forall>q \<in> set ds. p \<noteq> q \<longrightarrow> disjoint_ranges p q"
    and "\<forall>p \<in> set ds. nat (end' p) \<le> b"
  shows "chain_desc b ds"
  using assms
proof (induction ds arbitrary: b)
  case (Cons p rest)
  have "nat (end' q) \<le> nat (start p)" if q: "q \<in> set rest" for q
  proof -
    have "start q \<le> start p" using Cons.prems(1) q by auto
    moreover have "start q \<noteq> start p" using Cons.prems(2) q by (metis distinct.simps(2) imageI list.simps(9) set_map)
    moreover have "q \<noteq> p" using Cons.prems(2) q by auto
    then have "disjoint_ranges p q" using Cons.prems(4) q by auto
    moreover have "start p \<le> end' p" using Cons.prems(3) by (simp add: in_bounds_def)
    ultimately have "end' q \<le> start p" by (auto simp: disjoint_ranges_def)
    then show ?thesis by simp
  qed
  then have "chain_desc (nat (start p)) rest"
    using Cons.IH[of "nat (start p)"] Cons.prems by auto
  then show ?case using Cons.prems(3,5) by (auto simp: in_bounds_def)
qed simp

lemma filter_same_key:
  "distinct (map f xs) \<Longrightarrow> k \<in> set xs \<Longrightarrow> filter (\<lambda>x. f k = f x) xs = [k]"
proof (induction xs)
  case (Cons a xs)
  show ?case
  proof (cases "k = a")
    case True
    have "filter (\<lambda>x. f a = f x) xs = []"
      using Cons.prems(1) by (auto simp: filter_empty_conv)
    then show ?thesis using True by simp
  next
    case False
    then have "k \<in> set xs" using Cons.prems(2) by simp
    moreover have "f k \<noteq> f a" using Cons.prems(1) calculation by (metis distinct.simps(2) imageI list.simps(9) set_map)
    ultimately show ?thesis using Cons by auto
  qed
qed simp

lemma rev_sort_descending:
  assumes "distinct (map start ps)"
  shows "sort_key start ps = rev (sort_descending ps)"
proof (rule properties_for_sort_key)
  let ?ds = "sort_descending ps"
  show "mset (rev ?ds) = mset ps" by (simp add: sort_descending_def)
  have "sorted (map (\<lambda>p. - start p) ?ds)" by (simp add: sort_descending_def)
  then have "sorted_wrt (\<lambda>x y. start y \<le> start x) ?ds" by (simp add: sorted_map)
  then show "sorted (map start (rev ?ds))"
    by (simp add: rev_map sorted_wrt_rev sorted_wrt_map)
  fix k assume "k \<in> set (rev ?ds)"
  then have k: "k \<in> set ps" by (simp add: sort_descending_def)
  have "distinct (map start (rev ?ds))"
    using assms by (simp add: sort_descending_def distinct_map inj_on_def) 
  then have "filter (\<lambda>x. start k = start x) (rev ?ds) = [k]"
    using filter_same_key[of start "rev ?ds" k] k by (simp add: sort_descending_def)
  then show "filter (\<lambda>x. start k = start x) (rev ?ds) = filter (\<lambda>x. start k = start x) ps"
    using filter_same_key[OF assms k] by simp
qed

lemma sort_descending_chain:
  assumes "patch_set source ps"
  shows "chain_desc (length source) (sort_descending ps)"
proof (rule sorted_chain[where source = source])
  let ?ds = "sort_descending ps"
  have set: "set ?ds = set ps" by (simp add: sort_descending_def)
  show "sorted (map (\<lambda>p. - start p) ?ds)" by (simp add: sort_descending_def)
  show "distinct (map start ?ds)"
    using assms by (simp add: sort_descending_def patch_set_def distinct_map inj_on_def)
  show "\<forall>p \<in> set ?ds. in_bounds source p"
    using assms set by (simp add: patch_set_def list_all_iff)
  show "\<forall>p \<in> set ?ds. \<forall>q \<in> set ?ds. p \<noteq> q \<longrightarrow> disjoint_ranges p q"
    using assms set non_overlapping_set by (auto simp: patch_set_def)
  show "\<forall>p \<in> set ?ds. nat (end' p) \<le> length source"
    using assms set by (auto simp: patch_set_def list_all_iff in_bounds_def)
qed


section \<open>What the occurrence scan counts\<close>

lemma find_upt_Some:
  assumes "find P [a ..< b] = Some i"
  shows "a \<le> i \<and> i < b \<and> P i \<and> (\<forall>j. a \<le> j \<and> j < i \<longrightarrow> \<not> P j)"
proof -
  from assms obtain n where n: "n < length [a ..< b]" "P ([a ..< b] ! n)" "i = [a ..< b] ! n"
    and first: "\<forall>m < n. \<not> P ([a ..< b] ! m)"
    unfolding find_Some_iff by blast
  from n have i: "i = a + n" and nb: "a + n < b" by auto
  have "\<not> P j" if "a \<le> j" "j < i" for j
  proof -
    have "j - a < n" using that i by linarith
    moreover have "[a ..< b] ! (j - a) = j" using that i nb by simp
    ultimately show ?thesis using first by metis
  qed
  then show ?thesis using n i nb by auto
qed

lemma find_upt_None:
  "find P [a ..< b] = None \<Longrightarrow> a \<le> j \<Longrightarrow> j < b \<Longrightarrow> \<not> P j"
  by (auto simp: find_None_iff)

lemma needle_nonempty: "needle \<noteq> []"
  by (simp add: needle_def)

lemma count_loop_counts:
  "- 1 \<le> idx \<Longrightarrow>
   count_loop source idx tot
     = tot + length (filter (\<lambda>i. prefix needle (drop i source)) [nat (idx + 1) ..< length source])"
proof (induction source idx tot rule: count_loop.induct)
  case (1 source idx tot)
  let ?P = "\<lambda>i. prefix needle (drop i source)"
  let ?n = "nat (idx + 1)"
  let ?k = "min ?n (length source)"
  show ?case
  proof (cases "find ?P [?k ..< Suc (length source)]")
    case None
    then have x: "js_indexOf source needle (idx + 1) = - 1" by (simp add: js_indexOf_def)
    have "\<not> ?P j" if "j \<in> set [?n ..< length source]" for j
      using find_upt_None[OF None, of j] that by auto
    then have "filter ?P [?n ..< length source] = []" by (simp only: filter_empty_conv) blast
    then show ?thesis using x by (subst count_loop.simps) simp
  next
    case (Some i)
    then have x: "js_indexOf source needle (idx + 1) = int i" by (simp add: js_indexOf_def)
    from find_upt_Some[OF Some] have ki: "?k \<le> i" and "i < Suc (length source)" and p: "?P i"
      and first: "\<forall>j. ?k \<le> j \<and> j < i \<longrightarrow> \<not> ?P j" by blast+
    have "i \<noteq> length source" using p needle_nonempty by auto
    with \<open>i < Suc (length source)\<close> have lt: "i < length source" by simp
    with ki have k: "?k = ?n" and ni: "?n \<le> i" by simp_all
    have split: "[?n ..< length source] = [?n ..< i] @ i # [Suc i ..< length source]"
    proof -
      have "[?n ..< length source] = [?n ..< i] @ [i ..< length source]"
        using ni lt upt_add_eq_append[of ?n i "length source - i"] by simp
      then show ?thesis using lt by (simp add: upt_conv_Cons)
    qed
    have "filter ?P [?n ..< i] = []"
      using first k by (simp only: filter_empty_conv) auto
    then have f: "length (filter ?P [?n ..< length source])
                  = Suc (length (filter ?P [Suc i ..< length source]))"
      using p by (simp add: split)
    have "count_loop source idx tot = count_loop source (int i) (tot + 1)"
      using x by (subst count_loop.simps) simp
    also have "\<dots> = tot + 1 + length (filter ?P [nat (int i + 1) ..< length source])"
      using "1.IH"[of "int i"] x by simp
    also have "nat (int i + 1) = Suc i" by simp
    finally show ?thesis using f by simp
  qed
qed

lemma countAllOccurrences_occurrences:
  "countAllOccurrences source = length (occurrences source needle)"
  using count_loop_counts[of "- 1" source 0]
  by (simp add: countAllOccurrences_def occurrences_def)

lemma js_includes_iff: "js_includes hay nd \<longleftrightarrow> (\<exists>pre post. hay = pre @ nd @ post)"
proof (induction hay)
  case Nil
  show ?case by auto
next
  case (Cons c cs)
  show ?case
  proof
    assume "js_includes (c # cs) nd"
    then consider "prefix nd (c # cs)" | "js_includes cs nd" by auto
    then show "\<exists>pre post. c # cs = pre @ nd @ post"
    proof cases
      case 1
      then obtain post where "c # cs = nd @ post" by (auto simp: prefix_def)
      then have "c # cs = [] @ nd @ post" by simp
      then show ?thesis by blast
    next
      case 2
      then obtain pre post where "cs = pre @ nd @ post" using Cons.IH by blast
      then have "c # cs = (c # pre) @ nd @ post" by simp
      then show ?thesis by blast
    qed
  next
    assume "\<exists>pre post. c # cs = pre @ nd @ post"
    then obtain pre post where e: "c # cs = pre @ nd @ post" by blast
    show "js_includes (c # cs) nd"
    proof (cases pre)
      case Nil
      then have "prefix nd (c # cs)" using e by (simp add: prefix_def)
      then show ?thesis by simp
    next
      case (Cons a pre')
      then have "cs = pre' @ nd @ post" using e by simp
      then show ?thesis using Cons.IH by auto
    qed
  qed
qed

lemma count_positive:
  assumes "source = pre @ needle @ post"
  shows "0 < countAllOccurrences source"
proof -
  have lt: "length pre < length source" using assms needle_nonempty by simp
  have "prefix needle (drop (length pre) source)" using assms by simp
  then have "length pre \<in> set (occurrences source needle)"
    using lt by (simp add: occurrences_def)
  then have "occurrences source needle \<noteq> []" by auto
  then show ?thesis by (simp add: countAllOccurrences_occurrences)
qed


section \<open>No patch, no scan match\<close>

lemma scanMatches_empty:
  assumes "fst (collectPatches ast source) = []"
  shows "scanMatches ast source = []"
proof -
  have "first_seen start (all_matches ast source) = []"
    using assms by (simp add: collectPatches_first_seen)
  then have "map (\<lambda>m. (m_position m, m_ruleId m, m_original m)) (scanMatches ast source) = []"
    by (simp only: scanMatches_first_seen) simp
  then show ?thesis by simp
qed

section \<open>The pre-order listing of a tree\<close>

lemma has_type_tag_object: "has_type_tag v \<Longrightarrow> is_object v"
  by (cases v) (simp_all add: has_type_tag_def)

lemma item_entries_iff:
  "(st, c) \<in> set (item_entries key i items) \<longleftrightarrow>
     (\<exists>j < length items. st = Elem key (i + j) \<and> c = items ! j \<and> has_type_tag c)"
proof (induction items arbitrary: i)
  case Nil
  show ?case by simp
next
  case (Cons item rest)
  show ?case
  proof
    assume "(st, c) \<in> set (item_entries key i (item # rest))"
    then consider "st = Elem key i" "c = item" "has_type_tag item"
      | "(st, c) \<in> set (item_entries key (Suc i) rest)"
      by (auto split: if_splits)
    then show "\<exists>j < length (item # rest). st = Elem key (i + j) \<and> c = (item # rest) ! j \<and> has_type_tag c"
    proof cases
      case 1
      then have "0 < length (item # rest) \<and> st = Elem key (i + 0) \<and> c = (item # rest) ! 0 \<and> has_type_tag c"
        by simp
      then show ?thesis by blast
    next
      case 2
      then obtain j where "j < length rest" "st = Elem key (Suc i + j)" "c = rest ! j" "has_type_tag c"
        using Cons.IH[of "Suc i"] by blast
      then have "Suc j < length (item # rest) \<and> st = Elem key (i + Suc j) \<and> c = (item # rest) ! Suc j \<and> has_type_tag c"
        by simp
      then show ?thesis by blast
    qed
  next
    assume "\<exists>j < length (item # rest). st = Elem key (i + j) \<and> c = (item # rest) ! j \<and> has_type_tag c"
    then obtain j where j: "j < length (item # rest)" "st = Elem key (i + j)" "c = (item # rest) ! j" "has_type_tag c"
      by blast
    show "(st, c) \<in> set (item_entries key i (item # rest))"
    proof (cases j)
      case 0
      then show ?thesis using j by simp
    next
      case (Suc j')
      then have "j' < length rest \<and> st = Elem key (Suc i + j') \<and> c = rest ! j' \<and> has_type_tag c"
        using j by simp
      then have "(st, c) \<in> set (item_entries key (Suc i) rest)"
        using Cons.IH[of "Suc i"] by blast
      then show ?thesis by simp
    qed
  qed
qed

lemma child_entries_iff:
  "(st, c) \<in> set (child_entries key child) \<longleftrightarrow>
     (st = Prop key \<and> c = child \<and> has_type_tag child)
     \<or> (\<exists>items j. child = JArr items \<and> j < length items \<and> st = Elem key j \<and> c = items ! j
            \<and> has_type_tag c)"
proof (cases child)
  case (JArr items)
  then show ?thesis by (auto simp: item_entries_iff has_type_tag_def)
qed (auto simp: has_type_tag_def)

lemma children_iff:
  "(st, c) \<in> set (children (JObj kvs)) \<longleftrightarrow>
     (\<exists>(key, child) \<in> set kvs. (st, c) \<in> set (child_entries key child))"
  by auto

lemma children_tagged: "(st, c) \<in> set (children node) \<Longrightarrow> has_type_tag c"
  by (cases node) (auto simp: child_entries_iff)

lemma map_of_distinct: "distinct (map fst kvs) \<Longrightarrow> (k, v) \<in> set kvs \<longleftrightarrow> map_of kvs k = Some v"
  by (auto dest: map_of_SomeD)

lemma children_step:
  assumes "distinct_keys (JObj kvs)" and "all_tagged (JObj kvs)"
  shows "(st, c) \<in> set (children (JObj kvs)) \<longleftrightarrow> node_step (JObj kvs) st = Some c"
proof -
  have d: "distinct (map fst kvs)" using assms(1) by simp
  have tag: "has_type_tag v" if "(k, JObj kvs') \<in> set kvs" "v = JObj kvs'" for k kvs' v
    using assms(2) that by auto
  show ?thesis
  proof (cases st)
    case (Prop k)
    have "(Prop k, c) \<in> set (children (JObj kvs)) \<longleftrightarrow> (k, c) \<in> set kvs \<and> has_type_tag c"
      by (auto simp: child_entries_iff)
    also have "\<dots> \<longleftrightarrow> (k, c) \<in> set kvs \<and> is_object c"
    proof -
      have "has_type_tag c" if "(k, c) \<in> set kvs" "is_object c"
        using that tag by (cases c) simp_all
      then show ?thesis using has_type_tag_object by blast
    qed
    also have "\<dots> \<longleftrightarrow> node_step (JObj kvs) (Prop k) = Some c"
      using map_of_distinct[OF d, of k] by (cases c) (auto split: option.splits jsval.splits)
    finally show ?thesis using Prop by simp
  next
    case (Elem k i)
    have "(Elem k i, c) \<in> set (children (JObj kvs)) \<longleftrightarrow>
            (\<exists>items. (k, JArr items) \<in> set kvs \<and> i < length items \<and> c = items ! i \<and> has_type_tag c)"
      by (auto simp: child_entries_iff)
    also have "\<dots> \<longleftrightarrow> node_step (JObj kvs) (Elem k i) = Some c"
      using map_of_distinct[OF d, of k] by (auto split: option.splits jsval.splits)
    finally show ?thesis using Elem by simp
  qed
qed

lemma children_all_tagged:
  "(st, c) \<in> set (children node) \<Longrightarrow> all_tagged node \<Longrightarrow> all_tagged c"
  by (cases node) (auto simp: child_entries_iff)

lemma children_distinct_keys:
  "(st, c) \<in> set (children node) \<Longrightarrow> distinct_keys node \<Longrightarrow> distinct_keys c"
  by (cases node) (auto simp: child_entries_iff)

lemma walk_items_entries:
  "walk_items items record_node [] = concat (map (\<lambda>(st, c). visits c) (item_entries key i items))"
proof (induction items arbitrary: i)
  case (Cons item rest)
  have "walk_items (item # rest) record_node []
          = (if has_type_tag item then walk item record_node [] else []) @ walk_items rest record_node []"
    using record_append(5)[of rest "if has_type_tag item then walk item record_node [] else []"]
    by simp
  then show ?case using Cons.IH[of "Suc i"] by (simp add: visits_def)
qed simp

lemma walk_child_entries:
  "walk_child child record_node [] = concat (map (\<lambda>(st, c). visits c) (child_entries key child))"
proof (cases child)
  case (JArr items)
  then show ?thesis using walk_items_entries[of items key 0] by simp
qed (simp_all add: visits_def has_type_tag_def)

lemma walk_keys_children:
  "walk_keys kvs record_node [] = concat (map (\<lambda>(st, c). visits c) (children (JObj kvs)))"
proof (induction kvs)
  case (Cons kv rest)
  obtain key child where kv: "kv = (key, child)" by (cases kv)
  have "walk_keys (kv # rest) record_node []
          = walk_child child record_node [] @ walk_keys rest record_node []"
    using record_append(2)[of rest "walk_child child record_node []"] kv by simp
  then show ?case using Cons.IH walk_child_entries[of child key] kv by simp
qed simp

lemma visits_children:
  "is_object node \<Longrightarrow> visits node = node # concat (map (\<lambda>(st, c). visits c) (children node))"
proof (cases node)
  case (JObj kvs)
  have "walk (JObj kvs) record_node [] = walk_keys kvs record_node [JObj kvs]"
    by (simp add: record_node_def)
  then have "visits (JObj kvs) = JObj kvs # walk_keys kvs record_node []"
    using record_append(2)[of kvs "[JObj kvs]"] by (simp add: visits_def)
  then show ?thesis using JObj walk_keys_children[of kvs] by simp
qed simp_all

lemma walk_order_visits: "is_object node \<Longrightarrow> map snd (walk_order node) = visits node"
proof (induction node rule: walk_order.induct)
  case (1 node)
  have blocks: "map (\<lambda>x. map snd (walk_order (snd x))) (children node)
                  = map (\<lambda>x. visits (snd x)) (children node)"
  proof (rule map_cong[OF refl])
    fix x assume x: "x \<in> set (children node)"
    obtain st c where sc: "x = (st, c)" by (cases x)
    then have "is_object c" using x children_tagged has_type_tag_object by blast
    then show "map snd (walk_order (snd x)) = visits (snd x)"
      using "1.IH"[OF x sc[symmetric]] sc by simp
  qed
  have "map snd (walk_order node)
          = node # concat (map (\<lambda>x. map snd (walk_order (snd x))) (children node))"
    by (subst walk_order.simps) (simp add: map_concat comp_def case_prod_unfold)
  also have "\<dots> = node # concat (map (\<lambda>x. visits (snd x)) (children node))"
    by (simp only: blocks)
  also have "\<dots> = visits node"
    using visits_children[OF "1.prems"] by (simp add: case_prod_unfold)
  finally show ?case .
qed

lemma distinct_map_head: "distinct (map f (a # xs)) \<Longrightarrow> x \<in> set xs \<Longrightarrow> f x \<noteq> f a"
  by (metis distinct.simps(2) imageI list.simps(9) set_map)

lemma walk_order_unfold:
  "walk_order node =
     ([], node) # concat (map (\<lambda>x. map (\<lambda>y. (fst x # fst y, snd y)) (walk_order (snd x))) (children node))"
  by (subst walk_order.simps) (simp add: case_prod_unfold)

lemma walk_order_Nil: "([], n) \<in> set (walk_order root) \<longleftrightarrow> n = root"
  by (subst walk_order_unfold) auto

lemma walk_order_Cons:
  "(st # p, n) \<in> set (walk_order root) \<longleftrightarrow>
     (\<exists>c. (st, c) \<in> set (children root) \<and> (p, n) \<in> set (walk_order c))"
  by (subst walk_order_unfold) force

lemma walk_order_node_at:
  "is_object root \<Longrightarrow> all_tagged root \<Longrightarrow> distinct_keys root \<Longrightarrow>
   (p, n) \<in> set (walk_order root) \<longleftrightarrow> node_at root p = Some n"
proof (induction p arbitrary: root)
  case Nil
  show ?case by (auto simp: walk_order_Nil)
next
  case (Cons st p)
  obtain kvs where root: "root = JObj kvs" using Cons.prems(1) by (cases root) simp_all
  have step: "(st, c) \<in> set (children root) \<longleftrightarrow> node_step root st = Some c" for c
    using children_step Cons.prems(2,3) root by blast
  have ih: "(p, n) \<in> set (walk_order c) \<longleftrightarrow> node_at c p = Some n"
    if "(st, c) \<in> set (children root)" for c
    using that Cons.IH[of c] Cons.prems(2,3) children_tagged has_type_tag_object
      children_all_tagged children_distinct_keys by blast
  have "(st # p, n) \<in> set (walk_order root) \<longleftrightarrow>
          (\<exists>c. node_step root st = Some c \<and> node_at c p = Some n)"
    using ih step by (auto simp: walk_order_Cons)
  then show ?case by (auto split: option.splits)
qed

lemma item_entries_key: "(st, c) \<in> set (item_entries key i items) \<Longrightarrow> step_key st = key"
  by (auto simp: item_entries_iff)

lemma child_entries_key: "(st, c) \<in> set (child_entries key child) \<Longrightarrow> step_key st = key"
  by (auto simp: child_entries_iff)

lemma item_entries_distinct: "distinct (map fst (item_entries key i items))"
proof (induction items arbitrary: i)
  case (Cons item rest)
  have "Elem key i \<notin> fst ` set (item_entries key (Suc i) rest)"
    by (auto simp: item_entries_iff)
  then show ?case using Cons.IH[of "Suc i"] by simp
qed simp

lemma child_entries_distinct: "distinct (map fst (child_entries key child))"
  by (cases child) (simp_all add: item_entries_distinct)

lemma children_distinct:
  "distinct (map fst kvs) \<Longrightarrow> distinct (map fst (children (JObj kvs)))"
proof (induction kvs)
  case (Cons kv rest)
  obtain key child where kv: "kv = (key, child)" by (cases kv)
  have "st \<notin> fst ` set (children (JObj rest))" if "st \<in> fst ` set (child_entries key child)" for st
  proof
    assume "st \<in> fst ` set (children (JObj rest))"
    then obtain c key' child' where "(key', child') \<in> set rest" "(st, c) \<in> set (child_entries key' child')"
      by auto
    then have "step_key st = key'" "key' \<in> fst ` set rest"
      using child_entries_key by force+
    moreover have "step_key st = key" using that child_entries_key by force
    ultimately show False using Cons.prems kv by simp
  qed
  then have "set (map fst (child_entries key child)) \<inter> set (map fst (children (JObj rest))) = {}"
    by (simp only: set_map) blast
  moreover have "distinct (map fst (children (JObj rest)))" using Cons by simp
  moreover have "children (JObj (kv # rest)) = child_entries key child @ children (JObj rest)"
    by (simp add: kv)
  ultimately show ?case using child_entries_distinct[of key child] by (simp only: map_append distinct_append)
qed simp

lemma distinct_blocks:
  "distinct (map fst ch) \<Longrightarrow> (\<forall>x \<in> set ch. distinct (f x)) \<Longrightarrow>
   distinct (concat (map (\<lambda>x. map ((#) (fst x)) (f x)) ch))"
proof (induction ch)
  case (Cons a ch)
  have "distinct (map ((#) (fst a)) (f a))" using Cons.prems(2) by (simp add: distinct_map)
  moreover have "set (map ((#) (fst a)) (f a)) \<inter> set (concat (map (\<lambda>x. map ((#) (fst x)) (f x)) ch)) = {}"
  proof -
    have "p \<notin> set (concat (map (\<lambda>x. map ((#) (fst x)) (f x)) ch))"
      if "p \<in> set (map ((#) (fst a)) (f a))" for p
    proof
      assume "p \<in> set (concat (map (\<lambda>x. map ((#) (fst x)) (f x)) ch))"
      then obtain x q' where x: "x \<in> set ch" and q: "p = fst x # q'" by auto
      from that obtain p' where p: "p = fst a # p'" by auto
      have "fst x \<noteq> fst a" using Cons.prems(1) x by (rule distinct_map_head)
      then show False using p q by simp
    qed
    then show ?thesis by blast
  qed
  ultimately show ?case using Cons by simp
qed simp

lemma walk_order_paths:
  "map fst (walk_order node) =
     [] # concat (map (\<lambda>x. map ((#) (fst x)) (map fst (walk_order (snd x)))) (children node))"
  by (subst walk_order_unfold) (simp add: map_concat comp_def)

lemma walk_order_distinct:
  "distinct_keys node \<Longrightarrow> distinct (map fst (walk_order node))"
proof (induction node rule: walk_order.induct)
  case (1 node)
  have d: "distinct (map fst (children node))"
    using "1.prems" children_distinct by (cases node) simp_all
  have "\<forall>x \<in> set (children node). distinct (map fst (walk_order (snd x)))"
    using "1.IH" "1.prems" children_distinct_keys by (metis prod.collapse)
  from distinct_blocks[OF d this] show ?case
    by (subst walk_order_paths) auto
qed

lemma sorted_blocks:
  "distinct (map fst ch) \<Longrightarrow>
   (\<forall>x \<in> set ch. sorted_wrt (\<lambda>p q. \<not> strict_prefix q p) (f x)) \<Longrightarrow>
   sorted_wrt (\<lambda>p q. \<not> strict_prefix q p) (concat (map (\<lambda>x. map ((#) (fst x)) (f x)) ch))"
proof (induction ch)
  case (Cons a ch)
  have "sorted_wrt (\<lambda>p q. \<not> strict_prefix q p) (map ((#) (fst a)) (f a))"
    using Cons.prems(2) by (simp add: sorted_wrt_map)
  moreover have "\<not> strict_prefix q p"
    if "p \<in> set (map ((#) (fst a)) (f a))"
       "q \<in> set (concat (map (\<lambda>x. map ((#) (fst x)) (f x)) ch))" for p q
  proof -
    from that(1) obtain p' where p: "p = fst a # p'" by auto
    from that(2) obtain x q' where x: "x \<in> set ch" and q: "q = fst x # q'" by auto
    have "fst x \<noteq> fst a" using Cons.prems(1) x by (rule distinct_map_head)
    then show ?thesis using p q by (auto simp: strict_prefix_def)
  qed
  ultimately show ?case using Cons by (simp add: sorted_wrt_append)
qed simp

lemma walk_order_sorted:
  "distinct_keys node \<Longrightarrow>
   sorted_wrt (\<lambda>p q. \<not> strict_prefix q p) (map fst (walk_order node))"
proof (induction node rule: walk_order.induct)
  case (1 node)
  have d: "distinct (map fst (children node))"
    using "1.prems" children_distinct by (cases node) simp_all
  have "\<forall>x \<in> set (children node).
          sorted_wrt (\<lambda>p q. \<not> strict_prefix q p) (map fst (walk_order (snd x)))"
    using "1.IH" "1.prems" children_distinct_keys by (metis prod.collapse)
  from sorted_blocks[OF d this] show ?case
    by (subst walk_order_paths) auto
qed

lemma walk_order_parent_first:
  assumes "distinct_keys node"
    and "i < length (walk_order node)" and "j < length (walk_order node)"
    and "strict_prefix (fst (walk_order node ! i)) (fst (walk_order node ! j))"
  shows "i < j"
proof (rule ccontr)
  assume "\<not> i < j"
  then consider "j = i" | "j < i" by linarith
  then show False
  proof cases
    case 1
    then show ?thesis using assms(4) by simp
  next
    case 2
    have "\<not> strict_prefix (map fst (walk_order node) ! i) (map fst (walk_order node) ! j)"
      using walk_order_sorted[OF assms(1)] 2 assms(2)
      by (simp only: sorted_wrt_iff_nth_less length_map) blast
    then show ?thesis using assms(2,3,4) by simp
  qed
qed

section \<open>The file name pattern\<close>

lemma bundle_name_iff:
  "bundle_name f \<longleftrightarrow>
     (\<exists>mid. f = ''index-'' @ mid @ ''.js'' \<and> \<not> list_ex line_terminator mid)"
proof
  assume b: "bundle_name f"
  let ?mid = "take (length f - 9) (drop 6 f)"
  from b have len: "9 \<le> length f" and pre: "take 6 f = ''index-''"
    and suf: "drop (length f - 3) f = ''.js''" and nl: "\<not> list_ex line_terminator ?mid"
    by (simp_all add: bundle_name_def)
  have "f = take 6 f @ drop 6 f" by simp
  also have "drop 6 f = ?mid @ drop (length f - 9) (drop 6 f)"
    by (rule append_take_drop_id[symmetric])
  also have "drop (length f - 9) (drop 6 f) = drop (length f - 3) f"
    using len by (simp add: add.commute)
  finally have "f = ''index-'' @ ?mid @ ''.js''" using pre suf by simp
  then show "\<exists>mid. f = ''index-'' @ mid @ ''.js'' \<and> \<not> list_ex line_terminator mid"
    using nl by blast
next
  assume "\<exists>mid. f = ''index-'' @ mid @ ''.js'' \<and> \<not> list_ex line_terminator mid"
  then obtain mid where f: "f = ''index-'' @ mid @ ''.js''" and nl: "\<not> list_ex line_terminator mid"
    by blast
  show "bundle_name f" using nl by (simp add: bundle_name_def f)
qed

section \<open>The shipped rule on the example statement (C1)\<close>

text \<open>
  C1, as the specification states it, fails: for the bundle
  \<^verbatim>\<open>const flag = useGateValue("codex-extension-slash-commands");\<close> the callee of the
  call is an \<^verbatim>\<open>Identifier\<close>, the rule asks for a \<^verbatim>\<open>MemberExpression\<close> and returns
  \<^verbatim>\<open>null\<close> on the declarator, no patch is collected, and apply mode writes nothing and
  exits with status 1 after the drift warning.
\<close>

theorem C1_bare_call_not_patched:
  \<open>get (visits bare_ast ! 2) ''type'' = JStr ''VariableDeclarator''
   \<and> enable_slash_commands_match (visits bare_ast ! 2) bare_source = None
   \<and> collectPatches bare_ast bare_source = ([], [])
   \<and> main False bare_ast bare_source
       = \<lparr> exit_status = 1, written = None, console = [DriftWarning 1] \<rparr>\<close>
  by code_simp

text \<open>
  C1, amended: for the bundle
  \<^verbatim>\<open>const flag = obj.useGateValue("codex-extension-slash-commands");\<close>, where the
  accessor is called as a member of an object, the rule returns a MatchResult for the
  declarator (the range of the initializer, and the initializer wrapped in the
  disjunction as replacement), and apply mode exits with status 0 having written
  \<^verbatim>\<open>const flag = (obj.useGateValue("codex-extension-slash-commands")||window.codexWindowType==="electron");\<close>.
\<close>

theorem C1_member_call_patched:
  \<open>get (visits member_ast ! 2) ''type'' = JStr ''VariableDeclarator''
   \<and> enable_slash_commands_match (visits member_ast ! 2) member_source
       = Some \<lparr> start = 13, end' = 63,
                replacement = ''(obj.useGateValue("codex-extension-slash-commands")||window.codexWindowType==="electron")'',
                original = ''obj.useGateValue("codex-extension-slash-commands")'' \<rparr>
   \<and> exit_status (main False member_ast member_source) = 0
   \<and> written (main False member_ast member_source)
       = Some ''const flag = (obj.useGateValue("codex-extension-slash-commands")||window.codexWindowType==="electron");''\<close>
  by code_simp

theorem C1_member_call_patched_witness:
  \<open>written (main False member_ast member_source)
     = Some ''const flag = (obj.useGateValue("codex-extension-slash-commands")||window.codexWindowType==="electron");''\<close>
  using C1_member_call_patched by simp

section \<open>Check mode and apply mode accept the same matches (C3)\<close>

text \<open>
  C3: for every tree and source text, the matches that \<^verbatim>\<open>scanMatches\<close> reports and
  the patches that \<^verbatim>\<open>collectPatches\<close> collects are the same when each is read as a
  pair of start offset and rule id: the two lists of pairs are equal entry by entry, and
  so are the two sets of pairs.
\<close>

theorem C3_check_and_apply_accept_the_same_matches:
  "map (\<lambda>m. (m_position m, m_ruleId m)) (scanMatches ast source)
     = map (\<lambda>p. (start p, ruleId p)) (fst (collectPatches ast source))
   \<and> (\<lambda>m. (m_position m, m_ruleId m)) ` set (scanMatches ast source)
     = (\<lambda>p. (start p, ruleId p)) ` set (fst (collectPatches ast source))"
proof -
  let ?f = "\<lambda>t :: int \<times> string \<times> string. (fst t, fst (snd t))"
  have "map ?f (map (\<lambda>m. (m_position m, m_ruleId m, m_original m)) (scanMatches ast source))
      = map ?f (map (\<lambda>p. (start p, ruleId p, original p)) (fst (collectPatches ast source)))"
    by (simp only: scanMatches_first_seen collectPatches_first_seen)
  then have eq: "map (\<lambda>m. (m_position m, m_ruleId m)) (scanMatches ast source)
     = map (\<lambda>p. (start p, ruleId p)) (fst (collectPatches ast source))"
    by (simp add: comp_def)
  have "set (map (\<lambda>m. (m_position m, m_ruleId m)) (scanMatches ast source))
     = set (map (\<lambda>p. (start p, ruleId p)) (fst (collectPatches ast source)))"
    by (simp only: eq)
  then have "(\<lambda>m. (m_position m, m_ruleId m)) ` set (scanMatches ast source)
     = (\<lambda>p. (start p, ruleId p)) ` set (fst (collectPatches ast source))"
    by (simp only: set_map)
  with eq show ?thesis by blast
qed

theorem C3_witness:
  "map (\<lambda>m. (m_position m, m_ruleId m)) (scanMatches member_ast member_source)
     = [(13, ''enable_slash_commands_in_electron'')]
   \<and> map (\<lambda>p. (start p, ruleId p)) (fst (collectPatches member_ast member_source))
     = [(13, ''enable_slash_commands_in_electron'')]"
proof -
  have "map (\<lambda>m. (m_position m, m_ruleId m)) (scanMatches member_ast member_source)
     = [(13, ''enable_slash_commands_in_electron'')]" by code_simp
  then show ?thesis
    using C3_check_and_apply_accept_the_same_matches[of member_ast member_source] by simp
qed

section \<open>Splicing in descending order replaces all ranges at once (C4)\<close>

text \<open>
  C4: for every source text and every patch set for it (pairwise distinct starts, ranges
  inside the text, no two ranges overlapping), splicing the patches one after the other
  in descending order of start, as \<^verbatim>\<open>main\<close> does, gives the same text as replacing all
  ranges simultaneously in the original text.
\<close>

theorem C4_descending_splice_is_simultaneous:
  assumes "patch_set source ps"
  shows "apply_patches (sort_descending ps) source = replace_simultaneously source ps"
proof -
  have "distinct (map start ps)" using assms by (simp add: patch_set_def)
  then show ?thesis
    using splice_chain[OF sort_descending_chain[OF assms]]
    by (simp add: replace_simultaneously_def rev_sort_descending)
qed

theorem C4_witness:
  "patch_set ''abcdefghij'' example_patches
   \<and> apply_patches (sort_descending example_patches) ''abcdefghij'' = ''abXYZe+fghj''
   \<and> replace_simultaneously ''abcdefghij'' example_patches = ''abXYZe+fghj''"
proof -
  have h: "patch_set ''abcdefghij'' example_patches" by code_simp
  have v: "replace_simultaneously ''abcdefghij'' example_patches = ''abXYZe+fghj''" by code_simp
  show ?thesis using h v C4_descending_splice_is_simultaneous[OF h] by simp
qed

section \<open>One patch per start offset, the first seen (C7)\<close>

text \<open>
  C7: for every tree and source text, the patches returned by \<^verbatim>\<open>collectPatches\<close>
  have pairwise distinct start offsets, and they are exactly the first-seen entries of
  the sequence of all rule matches met during the walk: of the matches that report one
  start offset the first is recorded and every later one is dropped. The same holds of
  the matches returned by \<^verbatim>\<open>scanMatches\<close>.
\<close>

theorem C7_first_seen_start_wins:
  "distinct (map start (fst (collectPatches ast source)))
   \<and> fst (collectPatches ast source) = first_seen start (all_matches ast source)
   \<and> distinct (map m_position (scanMatches ast source))
   \<and> map (\<lambda>m. (m_position m, m_ruleId m, m_original m)) (scanMatches ast source)
       = map (\<lambda>p. (start p, ruleId p, original p)) (first_seen start (all_matches ast source))"
proof -
  have d: "distinct (map start (first_seen start (all_matches ast source)))"
    by (rule first_seen_distinct)
  have "map m_position (scanMatches ast source)
      = map fst (map (\<lambda>m. (m_position m, m_ruleId m, m_original m)) (scanMatches ast source))"
    by (simp add: comp_def)
  also have "\<dots> = map start (first_seen start (all_matches ast source))"
    by (simp only: scanMatches_first_seen) (simp add: comp_def)
  finally have "distinct (map m_position (scanMatches ast source))" using d by simp
  then show ?thesis
    using d by (simp add: collectPatches_first_seen scanMatches_first_seen)
qed

theorem C7_witness:
  "map start (all_matches repeated_ast member_source) = [13, 13]
   \<and> map start (fst (collectPatches repeated_ast member_source)) = [13]
   \<and> map m_position (scanMatches repeated_ast member_source) = [13]"
proof -
  have a: "map start (all_matches repeated_ast member_source) = [13, 13]" by code_simp
  have b: "map start (first_seen start (all_matches repeated_ast member_source)) = [13]"
    by code_simp
  have c: "map m_position (scanMatches repeated_ast member_source) = [13]" by code_simp
  show ?thesis
    using a b c C7_first_seen_start_wins[of repeated_ast member_source] by simp
qed

section \<open>References without a structural match, in apply mode (C5)\<close>

text \<open>
  C5, as the specification states it, fails: the text that the patcher has written for
  the second example bundle contains the quoted gate name, no rule matches any node of
  its tree, and apply mode reports the gate as already enabled and exits with status 0,
  because the text contains the guard expression.
\<close>

theorem C5_already_enabled_exits_zero:
  \<open>0 < countAllOccurrences patched_source
   \<and> collectPatches patched_ast patched_source = ([], [])
   \<and> main False patched_ast patched_source
       = \<lparr> exit_status = 0, written = None, console = [AlreadyEnabled 1] \<rparr>\<close>
  by code_simp

text \<open>
  C5, amended: in apply mode, for every input text in which the occurrence scan finds
  the quoted gate name and in which no rule matches any node, the run never writes the
  file; it gives the drift warning and exits with status 1 when the text does not contain
  the guard expression \<^verbatim>\<open>window.codexWindowType==="electron"\<close>, and it reports the gate
  as already enabled and exits with status 0 when the text contains it.
\<close>

theorem C5_no_match_with_references:
  assumes "fst (collectPatches ast source) = []" and "0 < countAllOccurrences source"
  shows "written (main False ast source) = None
    \<and> (js_includes source ELECTRON_FORCE_EXPR \<longrightarrow>
          main False ast source
            = \<lparr> exit_status = 0, written = None,
                console = [AlreadyEnabled (countAllOccurrences source)] \<rparr>)
    \<and> (\<not> js_includes source ELECTRON_FORCE_EXPR \<longrightarrow>
          main False ast source
            = \<lparr> exit_status = 1, written = None,
                console = [DriftWarning (countAllOccurrences source)] \<rparr>)"
  using assms by (cases "collectPatches ast source") (simp add: main_def Let_def)

theorem C5_witness:
  \<open>fst (collectPatches bare_ast bare_source) = [] \<and> 0 < countAllOccurrences bare_source
   \<and> \<not> js_includes bare_source ELECTRON_FORCE_EXPR
   \<and> exit_status (main False bare_ast bare_source) = 1
   \<and> written (main False bare_ast bare_source) = None\<close>
proof -
  have a: "fst (collectPatches bare_ast bare_source) = []" by code_simp
  have b: "0 < countAllOccurrences bare_source" by code_simp
  have c: "\<not> js_includes bare_source ELECTRON_FORCE_EXPR" by code_simp
  show ?thesis using a b c C5_no_match_with_references[OF a b] by simp
qed

section \<open>The gate name in a comment only (C6)\<close>

text \<open>
  C6, as the specification states it, fails: for a bundle that holds the quoted gate
  name in a comment only, no rule matches, the occurrence scan counts the comment, and
  apply mode gives the drift warning and exits with status 1.
\<close>

theorem C6_comment_reference_triggers_drift:
  \<open>comment_source = ''// '' @ needle @ ''\<newline>const x = 1;''
   \<and> collectPatches comment_ast comment_source = ([], [])
   \<and> main False comment_ast comment_source
       = \<lparr> exit_status = 1, written = None, console = [DriftWarning 1] \<rparr>\<close>
  by code_simp

text \<open>
  C6, amended: for every input text that holds the quoted gate name anywhere in the raw
  text, a comment included, and not the guard expression, and in whose tree no rule
  matches, the occurrence scan counts the occurrence: apply mode gives the drift warning
  and exits with status 1 without writing, and check mode reports the references with
  no patch site and returns with status 0. The run does not tell a comment from
  drift.
\<close>

theorem C6_reference_outside_code_counts:
  assumes "fst (collectPatches ast source) = []"
    and "source = pre @ needle @ post"
    and "\<not> js_includes source ELECTRON_FORCE_EXPR"
  shows "0 < countAllOccurrences source
    \<and> main False ast source
        = \<lparr> exit_status = 1, written = None,
            console = [DriftWarning (countAllOccurrences source)] \<rparr>
    \<and> main True ast source
        = \<lparr> exit_status = 0, written = None,
            console = [CheckHeader, RefSummary (countAllOccurrences source) 0, CheckNoPatchSite] \<rparr>"
proof -
  have pos: "0 < countAllOccurrences source" by (rule count_positive[OF assms(2)])
  have "scanMatches ast source = []" by (rule scanMatches_empty[OF assms(1)])
  then show ?thesis
    using pos assms(1,3) by (cases "collectPatches ast source") (simp add: main_def Let_def)
qed

theorem C6_witness:
  \<open>fst (collectPatches comment_ast comment_source) = []
   \<and> comment_source = ''// '' @ needle @ ''\<newline>const x = 1;''
   \<and> \<not> js_includes comment_source ELECTRON_FORCE_EXPR
   \<and> exit_status (main False comment_ast comment_source) = 1
   \<and> exit_status (main True comment_ast comment_source) = 0\<close>
proof -
  have a: "fst (collectPatches comment_ast comment_source) = []" by code_simp
  have b: \<open>comment_source = ''// '' @ needle @ ''\<newline>const x = 1;''\<close> by code_simp
  have c: "\<not> js_includes comment_source ELECTRON_FORCE_EXPR" by code_simp
  show ?thesis using a b c C6_reference_outside_code_counts[OF a b c] by simp
qed

section \<open>The bundle locator fails closed (C9)\<close>

text \<open>
  C9: \<^verbatim>\<open>locateBundle\<close> returns a path exactly when the assets directory exists and
  exactly one of its entries matches \<^verbatim>\<open>index-*.js\<close>, and the path is that entry's; with
  no matching entry, or more than one, (or no directory) it ends the process with
  status 1.
\<close>

theorem C9_locateBundle_fails_closed:
  "locateBundle assetsDir sep dir_exists entries =
     (if dir_exists \<and> length (filter bundle_name entries) = 1
      then Inr (assetsDir @ sep @ hd (filter bundle_name entries))
      else Inl (ProcessExit 1))"
proof -
  let ?files = "filter bundle_name entries"
  have "length ?files = 1 \<longleftrightarrow> \<not> length ?files = 0 \<and> \<not> length ?files > 1" by arith
  then show ?thesis unfolding locateBundle_def Let_def by simp
qed

theorem C9_witness:
  "locateBundle ''assets'' ''/'' True [''index-a1b2.js'', ''index.html'', ''app-1.js''] = Inr ''assets/index-a1b2.js''
   \<and> locateBundle ''assets'' ''/'' True [''index.html'', ''app-1.js''] = Inl (ProcessExit 1)
   \<and> locateBundle ''assets'' ''/'' True [''index-a.js'', ''index-b.js''] = Inl (ProcessExit 1)"
proof -
  have "length (filter bundle_name [''index-a1b2.js'', ''index.html'', ''app-1.js'']) = 1
      \<and> hd (filter bundle_name [''index-a1b2.js'', ''index.html'', ''app-1.js'']) = ''index-a1b2.js''
      \<and> length (filter bundle_name [''index.html'', ''app-1.js'']) = 0
      \<and> length (filter bundle_name [''index-a.js'', ''index-b.js'']) = 2"
    by code_simp
  then show ?thesis
    using C9_locateBundle_fails_closed[of "''assets''" "''/''" True "[''index-a1b2.js'', ''index.html'', ''app-1.js'']"]
      C9_locateBundle_fails_closed[of "''assets''" "''/''" True "[''index.html'', ''app-1.js'']"]
      C9_locateBundle_fails_closed[of "''assets''" "''/''" True "[''index-a.js'', ''index-b.js'']"]
    by simp
qed
section \<open>Only double-quoted occurrences are counted (C10)\<close>

text \<open>
  C10: \<^verbatim>\<open>countAllOccurrences(source)\<close> is the number of positions of the text at which
  the gate name in double quotes occurs. For the bundle whose gate name literal is
  written with single quotes the rule returns a MatchResult on the declarator, one patch
  is collected and one match is scanned, while the count is 0.
\<close>

theorem C10_only_double_quoted_occurrences_counted:
  \<open>countAllOccurrences source
     = length (occurrences source ''"codex-extension-slash-commands"'')
   \<and> get (visits single_ast ! 2) ''type'' = JStr ''VariableDeclarator''
   \<and> enable_slash_commands_match (visits single_ast ! 2) single_source \<noteq> None
   \<and> length (fst (collectPatches single_ast single_source)) = 1
   \<and> length (scanMatches single_ast single_source) = 1
   \<and> countAllOccurrences single_source = 0\<close>
proof -
  have n: \<open>needle = ''"codex-extension-slash-commands"''\<close>
    by (simp add: needle_def GATE_NAME_def)
  have \<open>get (visits single_ast ! 2) ''type'' = JStr ''VariableDeclarator''
   \<and> enable_slash_commands_match (visits single_ast ! 2) single_source \<noteq> None
   \<and> length (fst (collectPatches single_ast single_source)) = 1
   \<and> length (scanMatches single_ast single_source) = 1
   \<and> countAllOccurrences single_source = 0\<close>
    by code_simp
  then show ?thesis using countAllOccurrences_occurrences[of source] n by simp
qed

theorem C10_witness:
  \<open>countAllOccurrences ''a("codex-extension-slash-commands", "codex-extension-slash-commands")'' = 2\<close>
proof -
  have \<open>length (occurrences ''a("codex-extension-slash-commands", "codex-extension-slash-commands")''
            ''"codex-extension-slash-commands"'') = 2\<close> by code_simp
  then show ?thesis
    using C10_only_double_quoted_occurrences_counted
            [of \<open>''a("codex-extension-slash-commands", "codex-extension-slash-commands")''\<close>]
    by simp
qed

section \<open>The walker visits every reachable node once, parents first (C8)\<close>

text \<open>
  C8: for every tree whose root is an object, whose objects all carry a string type tag
  and list no key twice, \<^verbatim>\<open>walk(root, visitor)\<close> makes exactly the visitor calls of
  the listing \<open>walk_order root\<close>, one after the other: the listing names every position
  reachable from the root through object-valued fields and tagged array elements, with
  the node found there, and no position twice; and a position comes before every
  position below it, so a parent is visited before each of its descendants.
\<close>

theorem C8_walk_visits_each_reachable_node_once_parent_first:
  assumes "is_object root" and "all_tagged root" and "distinct_keys root"
  shows "walk root visitor s = fold visitor (map snd (walk_order root)) s
    \<and> distinct (map fst (walk_order root))
    \<and> set (walk_order root) = {(path, node). node_at root path = Some node}
    \<and> (\<forall>i j. i < length (walk_order root) \<and> j < length (walk_order root)
              \<and> strict_prefix (fst (walk_order root ! i)) (fst (walk_order root ! j))
          \<longrightarrow> i < j)"
proof -
  have "walk root visitor s = fold visitor (map snd (walk_order root)) s"
    using walk_fold_visits[of root visitor s] walk_order_visits[OF assms(1)] by simp
  moreover have "distinct (map fst (walk_order root))"
    by (rule walk_order_distinct[OF assms(3)])
  moreover have "set (walk_order root) = {(path, node). node_at root path = Some node}"
    using walk_order_node_at[OF assms] by auto
  moreover have "\<forall>i j. i < length (walk_order root) \<and> j < length (walk_order root)
              \<and> strict_prefix (fst (walk_order root ! i)) (fst (walk_order root ! j))
          \<longrightarrow> i < j"
    using walk_order_parent_first[OF assms(3)] by blast
  ultimately show ?thesis by blast
qed

theorem C8_witness:
  "is_object member_ast \<and> all_tagged member_ast \<and> distinct_keys member_ast
   \<and> walk member_ast (\<lambda>node types. types @ [get node ''type'']) []
       = [JStr ''Program'', JStr ''VariableDeclaration'', JStr ''VariableDeclarator'',
          JStr ''Identifier'', JStr ''CallExpression'', JStr ''MemberExpression'',
          JStr ''Identifier'', JStr ''Identifier'', JStr ''Literal'']
   \<and> distinct (map fst (walk_order member_ast))"
proof -
  have a: "is_object member_ast" by code_simp
  have b: "all_tagged member_ast" by code_simp
  have c: "distinct_keys member_ast" by code_simp
  have v: "fold (\<lambda>node types. types @ [get node ''type'']) (visits member_ast) []
       = [JStr ''Program'', JStr ''VariableDeclaration'', JStr ''VariableDeclarator'',
          JStr ''Identifier'', JStr ''CallExpression'', JStr ''MemberExpression'',
          JStr ''Identifier'', JStr ''Identifier'', JStr ''Literal'']" by code_simp
  note t = C8_walk_visits_each_reachable_node_once_parent_first
             [OF a b c, of "\<lambda>node types. types @ [get node ''type'']" "[]"]
  from t have w: "walk member_ast (\<lambda>node types. types @ [get node ''type'']) []
       = fold (\<lambda>node types. types @ [get node ''type'']) (map snd (walk_order member_ast)) []"
    by (rule conjunct1)
  from t have d: "distinct (map fst (walk_order member_ast))"
    by (elim conjE)
  show ?thesis
    by (intro conjI a b c d) (simp only: w walk_order_visits[OF a] v)
qed

section \<open>Running the patcher twice (C2)\<close>

text \<open>
  The mechanism behind idempotence: the rule returns \<^verbatim>\<open>null\<close> on a declarator whose
  initializer text holds \<^verbatim>\<open>window.codexWindowType\<close>, and every replacement it
  produces holds that text.
\<close>

lemma guard_rejects_patched_initializer:
  assumes "js_includes (js_slice source (offset (get (get node ''init'') ''start''))
                                        (offset (get (get node ''init'') ''end'')))
                       ''window.codexWindowType''"
  shows "enable_slash_commands_match node source = None"
  using assms
  by (simp add: enable_slash_commands_match_def Let_def split: jsval.splits list.splits)

lemma replacement_carries_guard:
  assumes "enable_slash_commands_match node source = Some m"
  shows "js_includes (replacement m) ''window.codexWindowType''"
proof -
  from assms obtain orig where "replacement m = ''('' @ orig @ ''||'' @ ELECTRON_FORCE_EXPR @ '')''"
    by (auto simp: enable_slash_commands_match_def Let_def split: if_splits jsval.splits list.splits)
  then have "replacement m = (''('' @ orig @ ''||'') @ ''window.codexWindowType'' @ ''===\"electron\")''"
    by (simp add: ELECTRON_FORCE_EXPR_def)
  then show ?thesis unfolding js_includes_iff by blast
qed

text \<open>
  On the example bundle the second run changes nothing: the text written by the first
  run has no match left, and apply mode returns with status 0 without writing.
\<close>

lemma second_run_on_example_changes_nothing:
  "written (main False member_ast member_source) = Some patched_source
   \<and> collectPatches patched_ast patched_source = ([], [])
   \<and> exit_status (main False patched_ast patched_source) = 0
   \<and> written (main False patched_ast patched_source) = None"
  by code_simp

text \<open>
  C2 fails on the code for the bundle \<open>nested_source\<close>, in which a matching declaration
  lies inside the initializer of another. The first run collects both, with ranges
  [8,160) and [69,117); it splices the inner one first and then replaces the outer range
  of the grown text by the replacement built from the original outer text, so the inner
  patch is lost and 39 characters of the old tail stay behind the replacement. The text
  written still parses; in its tree the inner declaration matches again, at [70,118), and
  a second run writes a text different from the first run's.
\<close>

theorem C2_nested_match_is_patched_again:
  "map (\<lambda>p. (start p, end' p)) (fst (collectPatches nested_ast nested_source))
      = [(8, 160), (69, 117)]
   \<and> exit_status (main False nested_ast nested_source) = 0
   \<and> written (main False nested_ast nested_source) = Some nested_once_source
   \<and> map (\<lambda>p. (start p, end' p)) (fst (collectPatches nested_once_ast nested_once_source))
      = [(70, 118)]
   \<and> exit_status (main False nested_once_ast nested_once_source) = 0
   \<and> written (main False nested_once_ast nested_once_source) \<noteq> None
   \<and> written (main False nested_once_ast nested_once_source) \<noteq> Some nested_once_source"
  by code_simp

theorem C2_witness:
  "written (main False nested_once_ast nested_once_source) \<noteq> Some nested_once_source"
  using C2_nested_match_is_patched_again by simp


end
